theory Spec2Isabelle
  imports Main "HOL-Library.Log_Nat" "HOL-Library.Product_Lexorder"
begin

section \<open>Next hops and next-hop sets\<close>

text \<open>
  An IP address is either a V4 or a V6 address; the numeric value stands for the bytes.
  \<open>addrKey\<close> gives the position of an address in the total order on addresses
  (family first, then value).
\<close>

datatype IPAddress = IPAddressV4 nat | IPAddressV6 nat

fun isV6 :: "IPAddress \<Rightarrow> bool" where
  "isV6 (IPAddressV4 _) = False"
| "isV6 (IPAddressV6 _) = True"

fun addrKey :: "IPAddress \<Rightarrow> nat \<times> nat" where
  "addrKey (IPAddressV4 a) = (4, a)"
| "addrKey (IPAddressV6 a) = (6, a)"

text \<open>
  Modelled from the spec: the declarations of \<open>NextHop\<close>, \<open>NextHopWeight\<close> and
  \<open>RouteNextHopEntry::NextHopSet\<close> (RouteTypes.h and the route state headers) are not
  part of the sources at hand. Following the data model, a next hop has an address, an
  interface and an integer weight \<open>\<ge> 0\<close>; a next-hop set is ordered by (address,
  interface), and the weight is content, not identity. A set is the list of its members
  in iteration order; \<open>validSet\<close> says that the list is strictly ascending in the
  identity, which is what the container maintains. \<open>NextHopWeight\<close> is an unsigned
  64-bit integer: a weight is a number below \<open>2\<^sup>6\<^sup>4\<close>, and sums and differences of
  weights wrap around at \<open>2\<^sup>6\<^sup>4\<close>.
\<close>

record NextHop =
  addr :: IPAddress
  intf :: nat
  weight :: nat

definition ResolvedNextHop :: "IPAddress \<Rightarrow> nat \<Rightarrow> nat \<Rightarrow> NextHop" where
  "ResolvedNextHop a i w = \<lparr>addr = a, intf = i, weight = w\<rparr>"

definition nhKey :: "NextHop \<Rightarrow> (nat \<times> nat) \<times> nat" where
  "nhKey nh = (addrKey (addr nh), intf nh)"

definition validSet :: "NextHop list \<Rightarrow> bool" where
  "validSet nhs = sorted_wrt (<) (map nhKey nhs)"

definition totalWeightOf :: "NextHop list \<Rightarrow> nat" where
  "totalWeightOf nhs = sum_list (map weight nhs)"

text \<open>\<open>flat_set::insert\<close>: the element goes to its place in the order; nothing happens
  when a member with the same identity is there already.\<close>

fun insertNextHop :: "NextHop \<Rightarrow> NextHop list \<Rightarrow> NextHop list" where
  "insertNextHop x [] = [x]"
| "insertNextHop x (y # ys) =
     (if nhKey x < nhKey y then x # y # ys
      else if nhKey y < nhKey x then y # insertNextHop x ys
      else y # ys)"

text \<open>\<open>std::max_element\<close> with the comparison \<open>n1.weight() < n2.weight()\<close>: the first
  member of greatest weight; \<open>None\<close> is the end iterator of an empty range.\<close>

fun max_element :: "NextHop list \<Rightarrow> NextHop option" where
  "max_element [] = None"
| "max_element (x # xs) =
     Some (foldl (\<lambda>largest n. if weight largest < weight n then n else largest) x xs)"

section \<open>Double-precision arithmetic of the scale factor\<close>

text \<open>
  The scale factor is a \<open>double\<close>. A double is modelled by the rational number it
  denotes; \<open>to_double\<close> rounds a rational to the nearest number with a 53-bit
  significand, ties to even, as IEEE 754 binary64 does for every correctly rounded
  operation (\<open>ilog2\<close> is the exponent of the leading bit). Only numbers \<open>\<ge> 0\<close> occur.
  The exponent range is not modelled: the quotients and products of the integers that
  occur here are far inside it.
\<close>

definition pow2 :: "int \<Rightarrow> rat" where
  "pow2 e = (if 0 \<le> e then 2 ^ nat e else 1 / 2 ^ nat (- e))"

definition ilog2 :: "rat \<Rightarrow> int" where
  "ilog2 x = (case quotient_of x of (p, q) \<Rightarrow>
     (let k = bitlen p - bitlen q in if pow2 k \<le> x then k else k - 1))"

definition round_even :: "rat \<Rightarrow> int" where
  "round_even m = (let n = \<lfloor>m\<rfloor>; d = m - of_int n in
     if d < 1 / 2 then n else if 1 / 2 < d then n + 1 else if even n then n else n + 1)"

definition to_double :: "rat \<Rightarrow> rat" where
  "to_double x = (if x \<le> 0 then 0 else
     (let e = ilog2 x - 52 in of_int (round_even (x / pow2 e)) * pow2 e))"

text \<open>\<open>FLAGS_ecmp_width / static_cast<double>(totalWeight)\<close>\<close>

definition scaleFactor :: "nat \<Rightarrow> nat \<Rightarrow> rat" where
  "scaleFactor ecmp_width totalWeight =
     to_double (of_nat ecmp_width / to_double (of_nat totalWeight))"

text \<open>\<open>std::max(static_cast<NextHopWeight>(nhop.weight() * factor), NextHopWeight(1))\<close>.
  The width is an \<open>int32\<close> flag that is not negative, and the factor is only taken when
  the total weight is greater than the width; so the factor is below 1, the product is
  below \<open>2\<^sup>6\<^sup>4\<close> and its conversion to \<open>NextHopWeight\<close> is its integer part.\<close>

definition scaledWeight :: "rat \<Rightarrow> nat \<Rightarrow> nat" where
  "scaledWeight factor w = max (nat \<lfloor>to_double (to_double (of_nat w) * factor)\<rfloor>) 1"

section \<open>normalizeNextHops\<close>

text \<open>Step 1: weight 0 is treated as weight 1.\<close>

definition coerceNextHops :: "NextHop list \<Rightarrow> NextHop list" where
  "coerceNextHops unnormalizedNextHops =
     fold (\<lambda>nhop normalizedNextHops.
             insertNextHop (ResolvedNextHop (addr nhop) (intf nhop) (max (weight nhop) 1))
               normalizedNextHops)
       unnormalizedNextHops []"

text \<open>
  The total weight. \<open>std::accumulate\<close> is seeded with the literal \<open>0\<close>, so its
  accumulator is an \<open>int\<close>: in each step the accumulator is converted to
  \<open>NextHopWeight\<close> for the lambda, the weight is added (modulo \<open>2\<^sup>6\<^sup>4\<close>), and the sum
  is converted back to \<open>int\<close>, which keeps the low 32 bits as a two's complement number.
  The result is converted to \<open>NextHopWeight\<close> once more.
\<close>

definition INT_MAX :: nat where
  "INT_MAX = 2147483647"

definition uint64_of_int :: "int \<Rightarrow> nat" where
  "uint64_of_int a = nat (a mod 2 ^ 64)"

definition int_of_uint64 :: "nat \<Rightarrow> int" where
  "int_of_uint64 n =
     (let m = int (n mod 2 ^ 32) in if m < 2 ^ 31 then m else m - 2 ^ 32)"

definition accumulateWeights :: "NextHop list \<Rightarrow> int" where
  "accumulateWeights nhs =
     fold (\<lambda>nh acc. int_of_uint64 ((uint64_of_int acc + weight nh) mod 2 ^ 64)) nhs 0"

text \<open>Step 2b: the loop that scales every next hop and adds up the scaled weights, in
  \<open>NextHopWeight\<close>.\<close>

definition scaleNextHops :: "rat \<Rightarrow> NextHop list \<Rightarrow> NextHop list \<times> nat" where
  "scaleNextHops factor normalizedNextHops =
     fold (\<lambda>nhop (scaledNextHops, scaledTotalWeight).
             (let w = scaledWeight factor (weight nhop) in
               (insertNextHop (ResolvedNextHop (addr nhop) (intf nhop) w) scaledNextHops,
                (scaledTotalWeight + w) mod 2 ^ 64)))
       normalizedNextHops ([], 0)"

text \<open>
  Step 2c: \<open>overflow\<close> rounds of decrementing the next hop of greatest weight. The
  decremented clone replaces the next hop unless its weight would be 0; then the next hop
  is gone. Taking \<open>max_element\<close> of an empty set would dereference the end iterator:
  that is the result \<open>None\<close>. The rounds are counted by an \<open>int\<close> that is compared with
  the unsigned \<open>overflow\<close>: when \<open>overflow\<close> is greater than \<open>INT_MAX\<close> the counter
  is incremented past \<open>INT_MAX\<close>, and this signed overflow is undefined behaviour too,
  again the result \<open>None\<close>.
\<close>

fun decrementMax :: "nat \<Rightarrow> NextHop list \<Rightarrow> NextHop list option" where
  "decrementMax 0 scaledNextHops = Some scaledNextHops"
| "decrementMax (Suc i) scaledNextHops =
     (case max_element scaledNextHops of
        None \<Rightarrow> None
      | Some maxItr \<Rightarrow>
          (let decMax = ResolvedNextHop (addr maxItr) (intf maxItr) (weight maxItr - 1);
               erased = remove1 maxItr scaledNextHops
           in decrementMax i
                (if weight decMax > 0 then insertNextHop decMax erased else erased)))"

definition normalizeNextHops :: "nat \<Rightarrow> NextHop list \<Rightarrow> NextHop list option" where
  "normalizeNextHops ecmp_width unnormalizedNextHops =
     (let normalizedNextHops = coerceNextHops unnormalizedNextHops;
          totalWeight = uint64_of_int (accumulateWeights normalizedNextHops)
      in if totalWeight > ecmp_width then
           (let factor = scaleFactor ecmp_width totalWeight in
            case scaleNextHops factor normalizedNextHops of
              (scaledNextHops, scaledTotalWeight) \<Rightarrow>
                if scaledTotalWeight > ecmp_width
                then (let overflow = scaledTotalWeight - ecmp_width in
                      if overflow > INT_MAX then None
                      else decrementMax overflow scaledNextHops)
                else Some scaledNextHops)
         else Some normalizedNextHops)"

text \<open>What steps 1 and 2b do to a single next hop, and the identity of a next hop.\<close>

definition coerced :: "NextHop \<Rightarrow> NextHop" where
  "coerced nh = ResolvedNextHop (addr nh) (intf nh) (max (weight nh) 1)"

definition scaled :: "rat \<Rightarrow> NextHop \<Rightarrow> NextHop" where
  "scaled f nh = ResolvedNextHop (addr nh) (intf nh) (scaledWeight f (weight nh))"

definition nhIdentity :: "NextHop \<Rightarrow> IPAddress \<times> nat" where
  "nhIdentity nh = (addr nh, intf nh)"

definition scenario3 :: "NextHop list" where
  "scenario3 = [ResolvedNextHop (IPAddressV4 1) 1 100, ResolvedNextHop (IPAddressV4 2) 1 1]"

text \<open>
  Three sets of three next hops whose weights no longer fit the \<open>int\<close> accumulator of the
  total weight: the sums are \<open>2\<^sup>3\<^sup>2\<close>, \<open>2\<^sup>3\<^sup>2 + 65\<close> and \<open>2\<^sup>3\<^sup>2 + 98\<close>.
\<close>

definition heavyHops :: "nat \<Rightarrow> NextHop list" where
  "heavyHops w = [ResolvedNextHop (IPAddressV4 1) 1 2147483647,
                  ResolvedNextHop (IPAddressV4 2) 1 2147483647,
                  ResolvedNextHop (IPAddressV4 3) 1 w]"

definition wrapToZero :: "NextHop list" where
  "wrapToZero = heavyHops 2"

definition wrapTo65 :: "NextHop list" where
  "wrapTo65 = heavyHops 67"


section \<open>Forwarding decisions\<close>

datatype RouteForwardAction = DROP | TO_CPU | NEXTHOPS

text \<open>
  Modelled from the spec: \<open>RouteNextHopEntry\<close> is declared in the route state headers,
  which are not part of the sources at hand. A forwarding decision is one of drop,
  send-to-control-plane or a next-hop set, together with an admin distance; only a
  next-hop decision carries next hops, the other two have the empty set. Two decisions are
  equal when action, next-hop set and admin distance are.
\<close>

datatype RouteNextHopEntry =
    DropEntry nat
  | ToCPUEntry nat
  | NextHopsEntry "NextHop list" nat

fun getAction :: "RouteNextHopEntry \<Rightarrow> RouteForwardAction" where
  "getAction (DropEntry _) = DROP"
| "getAction (ToCPUEntry _) = TO_CPU"
| "getAction (NextHopsEntry _ _) = NEXTHOPS"

fun getNextHopSet :: "RouteNextHopEntry \<Rightarrow> NextHop list" where
  "getNextHopSet (DropEntry _) = []"
| "getNextHopSet (ToCPUEntry _) = []"
| "getNextHopSet (NextHopsEntry nhops _) = nhops"

fun getAdminDistance :: "RouteNextHopEntry \<Rightarrow> nat" where
  "getAdminDistance (DropEntry d) = d"
| "getAdminDistance (ToCPUEntry d) = d"
| "getAdminDistance (NextHopsEntry _ d) = d"

section \<open>The switch: collaborators of a route\<close>

text \<open>
  A thrown \<open>BcmError\<close> or \<open>FbossError\<close> unwinds the stack and runs the \<open>SCOPE_FAIL\<close>
  blocks; a failed \<open>CHECK\<close> or \<open>DCHECK\<close> aborts the process and runs nothing.
  \<open>UndefinedBehaviour\<close> is what the undefined behaviour of step 2c becomes for the
  caller of \<open>normalizeNextHops\<close>.
\<close>

datatype error = BcmError | FbossError | CheckFailure | UndefinedBehaviour

datatype L3Flag = OPENNSL_L3_MULTIPATH | OPENNSL_L3_REPLACE | OPENNSL_L3_IP6

text \<open>\<open>opennsl_l3_route_t\<close>: the subnet stands for \<open>l3a_subnet\<close> or \<open>l3a_ip6_net\<close>, the
  prefix length for the mask computed from it, the flags are a set of bits.\<close>

record opennsl_l3_route_t =
  l3a_vrf :: nat
  l3a_subnet :: IPAddress
  l3a_ip_mask :: nat
  l3a_intf :: int
  l3a_flags :: "L3Flag set"

type_synonym BcmHostKey = "nat \<times> IPAddress"

type_synonym BcmEcmpHostKey = "nat \<times> NextHop list"

type_synonym LpmKey = "nat \<times> IPAddress \<times> nat"

text \<open>Every call that a route issues on the host table, the hardware unit and the warm
  boot cache is recorded, in order.\<close>

datatype HwCall =
    IncRefOrCreateBcmEcmpHost BcmEcmpHostKey
  | DerefBcmEcmpHost BcmEcmpHostKey
  | IncRefOrCreateBcmHost BcmHostKey
  | DerefBcmHost BcmHostKey
  | AddToBcmHostTable BcmHostKey bool bool
  | L3RouteAdd opennsl_l3_route_t
  | L3RouteDelete opennsl_l3_route_t
  | ProgrammedHostRoute BcmHostKey
  | ProgrammedRoute LpmKey

record BcmHost =
  refCount :: nat
  hostEgressId :: int
  addedInHW :: bool

text \<open>
  The state behind \<open>hw_\<close>: the record of calls, the host objects of the host table, the
  LPM table of the unit, and the two indexes of the warm boot cache (host routes found in
  the route table, and routes by prefix).
\<close>

record BcmSwitch =
  calls :: "HwCall list"
  hostTable :: "BcmHostKey \<rightharpoonup> BcmHost"
  lpmTable :: "LpmKey \<rightharpoonup> opennsl_l3_route_t"
  vrfAndIP2Route :: "BcmHostKey \<rightharpoonup> opennsl_l3_route_t"
  vrfAndPrefix2Route :: "LpmKey \<rightharpoonup> opennsl_l3_route_t"

text \<open>The platform and the flags: what a route reads and never writes. \<open>dchecks\<close> says
  whether \<open>DCHECK\<close> is compiled in.\<close>

record Platform =
  canUseHostTableForHostRoutes :: bool
  dropEgressId :: int
  toCPUEgressId :: int
  ecmpEgressId :: "BcmEcmpHostKey \<Rightarrow> int"
  ecmp_width :: nat
  dchecks :: bool

definition logCall :: "HwCall \<Rightarrow> BcmSwitch \<Rightarrow> BcmSwitch" where
  "logCall c hw = hw\<lparr>calls := calls hw @ [c]\<rparr>"

text \<open>
  Modelled from the spec: the host table (BcmHost.cpp), the warm boot cache
  (BcmWarmBootCache.cpp) and the SDK are not part of the sources at hand. The egress
  resolver acquires or creates a handle (reference count up) and releases it (reference
  count down, the object is destroyed at zero); the reference count of a multipath object
  is the number of acquire calls minus the number of release calls in the record. A host
  object that is destroyed leaves the table. \<open>addToBcmHostTable\<close> writes the host entry
  with the egress of the host object and, when it replaces, removes the route-table entry
  of the same prefix (the comment in \<open>program\<close> says that it does); the write fails
  when the hardware says so (\<open>ok\<close>). A route is added to the LPM table unless the hardware
  refuses (\<open>ok\<close>), and deleting succeeds exactly when the entry is there. An entry of the
  warm boot cache that is marked \<open>programmed\<close> leaves its index.
\<close>

definition incRefOrCreateBcmEcmpHost :: "BcmEcmpHostKey \<Rightarrow> BcmSwitch \<Rightarrow> BcmSwitch" where
  "incRefOrCreateBcmEcmpHost key hw = logCall (IncRefOrCreateBcmEcmpHost key) hw"

definition derefBcmEcmpHost :: "BcmEcmpHostKey \<Rightarrow> BcmSwitch \<Rightarrow> BcmSwitch" where
  "derefBcmEcmpHost key hw = logCall (DerefBcmEcmpHost key) hw"

definition incRefOrCreateBcmHost :: "BcmHostKey \<Rightarrow> BcmSwitch \<Rightarrow> BcmSwitch" where
  "incRefOrCreateBcmHost key hw =
     logCall (IncRefOrCreateBcmHost key)
       (hw\<lparr>hostTable := (hostTable hw)(key \<mapsto>
          (case hostTable hw key of
             None \<Rightarrow> \<lparr>refCount = 1, hostEgressId = - 1, addedInHW = False\<rparr>
           | Some h \<Rightarrow> h\<lparr>refCount := refCount h + 1\<rparr>))\<rparr>)"

definition derefBcmHost :: "BcmHostKey \<Rightarrow> BcmSwitch \<Rightarrow> BcmSwitch" where
  "derefBcmHost key hw =
     logCall (DerefBcmHost key)
       (hw\<lparr>hostTable :=
          (case hostTable hw key of
             None \<Rightarrow> hostTable hw
           | Some h \<Rightarrow>
               if refCount h \<le> 1 then (hostTable hw)(key := None)
               else (hostTable hw)(key \<mapsto> h\<lparr>refCount := refCount h - 1\<rparr>))\<rparr>)"

definition setEgressId :: "BcmHostKey \<Rightarrow> int \<Rightarrow> BcmSwitch \<Rightarrow> BcmSwitch" where
  "setEgressId key egressId hw =
     hw\<lparr>hostTable :=
        (case hostTable hw key of
           None \<Rightarrow> hostTable hw
         | Some h \<Rightarrow> (hostTable hw)(key \<mapsto> h\<lparr>hostEgressId := egressId\<rparr>))\<rparr>"

definition hostPrefixLength :: "IPAddress \<Rightarrow> nat" where
  "hostPrefixLength a = (if isV6 a then 128 else 32)"

definition addToBcmHostTable ::
  "bool \<Rightarrow> BcmHostKey \<Rightarrow> bool \<Rightarrow> bool \<Rightarrow> BcmSwitch \<Rightarrow> error option \<times> BcmSwitch" where
  "addToBcmHostTable ok key isMultipath replace hw =
     (let hw1 = logCall (AddToBcmHostTable key isMultipath replace) hw in
      if ok then
        (None,
         hw1\<lparr>hostTable :=
                (case hostTable hw1 key of
                   None \<Rightarrow> hostTable hw1
                 | Some h \<Rightarrow> (hostTable hw1)(key \<mapsto> h\<lparr>addedInHW := True\<rparr>)),
              lpmTable :=
                (if replace
                 then (lpmTable hw1)((fst key, snd key, hostPrefixLength (snd key)) := None)
                 else lpmTable hw1)\<rparr>)
      else (Some BcmError, hw1))"

definition lpmKeyOf :: "opennsl_l3_route_t \<Rightarrow> LpmKey" where
  "lpmKeyOf rt = (l3a_vrf rt, l3a_subnet rt, l3a_ip_mask rt)"

definition opennsl_l3_route_add ::
  "bool \<Rightarrow> opennsl_l3_route_t \<Rightarrow> BcmSwitch \<Rightarrow> bool \<times> BcmSwitch" where
  "opennsl_l3_route_add ok rt hw =
     (let hw1 = logCall (L3RouteAdd rt) hw in
      if ok then (True, hw1\<lparr>lpmTable := (lpmTable hw1)(lpmKeyOf rt \<mapsto> rt)\<rparr>)
      else (False, hw1))"

definition opennsl_l3_route_delete ::
  "opennsl_l3_route_t \<Rightarrow> BcmSwitch \<Rightarrow> bool \<times> BcmSwitch" where
  "opennsl_l3_route_delete rt hw =
     (let hw1 = logCall (L3RouteDelete rt) hw in
      case lpmTable hw1 (lpmKeyOf rt) of
        None \<Rightarrow> (False, hw1)
      | Some _ \<Rightarrow> (True, hw1\<lparr>lpmTable := (lpmTable hw1)(lpmKeyOf rt := None)\<rparr>))"

definition programmedHostRoute :: "BcmHostKey \<Rightarrow> BcmSwitch \<Rightarrow> BcmSwitch" where
  "programmedHostRoute key hw =
     logCall (ProgrammedHostRoute key) (hw\<lparr>vrfAndIP2Route := (vrfAndIP2Route hw)(key := None)\<rparr>)"

definition programmedRoute :: "LpmKey \<Rightarrow> BcmSwitch \<Rightarrow> BcmSwitch" where
  "programmedRoute key hw =
     logCall (ProgrammedRoute key)
       (hw\<lparr>vrfAndPrefix2Route := (vrfAndPrefix2Route hw)(key := None)\<rparr>)"

section \<open>BcmRoute\<close>

text \<open>
  The members of a route; \<open>m_vrf\<close> is the member \<open>vrf_\<close>, and so on for the others
  (a name cannot end in an underscore here). Modelled from the spec: BcmRoute.h is not part of the sources at
  hand; a route is created empty (not added), and its forwarding decision and egress
  handle are not read before the first successful \<open>program\<close>.
\<close>

record BcmRoute =
  m_vrf :: nat
  m_prefix :: IPAddress
  m_len :: nat
  m_fwd :: RouteNextHopEntry
  m_egressId :: int
  m_added :: bool

definition newBcmRoute :: "nat \<Rightarrow> IPAddress \<Rightarrow> nat \<Rightarrow> BcmRoute" where
  "newBcmRoute v a len =
     \<lparr>m_vrf = v, m_prefix = a, m_len = len, m_fwd = DropEntry 0, m_egressId = - 1, m_added = False\<rparr>"

definition initL3RouteFromArgs :: "nat \<Rightarrow> IPAddress \<Rightarrow> nat \<Rightarrow> opennsl_l3_route_t" where
  "initL3RouteFromArgs v prefix prefixLength =
     \<lparr>l3a_vrf = v, l3a_subnet = prefix, l3a_ip_mask = prefixLength, l3a_intf = 0,
      l3a_flags = (if isV6 prefix then {OPENNSL_L3_IP6} else {})\<rparr>"

definition initL3RouteT :: "BcmRoute \<Rightarrow> opennsl_l3_route_t" where
  "initL3RouteT r = initL3RouteFromArgs (m_vrf r) (m_prefix r) (m_len r)"

definition isHostRoute :: "BcmRoute \<Rightarrow> bool" where
  "isHostRoute r = (if isV6 (m_prefix r) then m_len r = 128 else m_len r = 32)"

definition canUseHostTable :: "Platform \<Rightarrow> BcmRoute \<Rightarrow> bool" where
  "canUseHostTable pf r = (isHostRoute r \<and> canUseHostTableForHostRoutes pf)"

definition cleanupHost :: "nat \<Rightarrow> NextHop list \<Rightarrow> BcmSwitch \<Rightarrow> BcmSwitch" where
  "cleanupHost v nhopsClean hw =
     (if nhopsClean \<noteq> [] then derefBcmEcmpHost (v, nhopsClean) hw else hw)"

definition deleteLpmRoute :: "nat \<Rightarrow> IPAddress \<Rightarrow> nat \<Rightarrow> BcmSwitch \<Rightarrow> bool \<times> BcmSwitch" where
  "deleteLpmRoute v prefix prefixLength hw =
     opennsl_l3_route_delete (initL3RouteFromArgs v prefix prefixLength) hw"

text \<open>\<open>programHostRoute\<close>: the host object is acquired, given the egress and written; when
  the write throws, the reference just acquired is released.\<close>

definition programHostRoute ::
  "bool \<Rightarrow> BcmRoute \<Rightarrow> int \<Rightarrow> RouteNextHopEntry \<Rightarrow> bool \<Rightarrow> BcmSwitch
   \<Rightarrow> error option \<times> BcmSwitch" where
  "programHostRoute ok r egressId fwd replace hw =
     (let hw1 = incRefOrCreateBcmHost (m_vrf r, m_prefix r) hw;
          hw2 = setEgressId (m_vrf r, m_prefix r) egressId hw1
      in case addToBcmHostTable ok (m_vrf r, m_prefix r)
                (length (getNextHopSet fwd) > 1) replace hw2 of
           (Some e, hw3) \<Rightarrow> (Some e, derefBcmHost (m_vrf r, m_prefix r) hw3)
         | (None, hw3) \<Rightarrow> (None, hw3))"

definition equivalent :: "opennsl_l3_route_t \<Rightarrow> opennsl_l3_route_t \<Rightarrow> bool" where
  "equivalent newRoute existingRoute =
     (l3a_flags existingRoute = l3a_flags newRoute \<and> l3a_intf existingRoute = l3a_intf newRoute)"

definition programLpmRoute ::
  "bool \<Rightarrow> BcmRoute \<Rightarrow> int \<Rightarrow> RouteNextHopEntry \<Rightarrow> BcmSwitch \<Rightarrow> error option \<times> BcmSwitch" where
  "programLpmRoute ok r egressId fwd hw =
     (let rt0 = (initL3RouteT r)\<lparr>l3a_intf := egressId\<rparr>;
          rt1 = (if length (getNextHopSet fwd) > 1
                 then rt0\<lparr>l3a_flags := insert OPENNSL_L3_MULTIPATH (l3a_flags rt0)\<rparr>
                 else rt0);
          vrfAndPfx2RouteCitr = vrfAndPrefix2Route hw (m_vrf r, m_prefix r, m_len r);
          (rt2, addRoute) =
            (case vrfAndPfx2RouteCitr of
               Some existingRoute \<Rightarrow>
                 if \<not> equivalent rt1 existingRoute
                 then (rt1\<lparr>l3a_flags := insert OPENNSL_L3_REPLACE (l3a_flags rt1)\<rparr>, True)
                 else (rt1, False)
             | None \<Rightarrow> (rt1, True));
          rt3 = (if m_added r
                 then rt2\<lparr>l3a_flags := insert OPENNSL_L3_REPLACE (l3a_flags rt2)\<rparr>
                 else rt2);
          (rc, hw1) = (if addRoute then opennsl_l3_route_add ok rt3 hw else (True, hw))
      in if \<not> rc then (Some BcmError, hw1)
         else (None,
               if vrfAndPfx2RouteCitr \<noteq> None
               then programmedRoute (m_vrf r, m_prefix r, m_len r) hw1 else hw1))"

text \<open>The host-table branch of \<open>program\<close>, up to the end of the \<open>if\<close>.\<close>

definition programViaHostTable ::
  "Platform \<Rightarrow> bool \<Rightarrow> BcmRoute \<Rightarrow> int \<Rightarrow> RouteNextHopEntry \<Rightarrow> BcmSwitch
   \<Rightarrow> error option \<times> BcmSwitch" where
  "programViaHostTable pf ok r egressId fwd hw =
     (let hostKey = (m_vrf r, m_prefix r) in
      if m_added r \<and> hostTable hw hostKey = None then (Some CheckFailure, hw)
      else
        (let hw1 = (if m_added r then derefBcmHost hostKey hw else hw);
             entryExistsInRouteTable = (vrfAndIP2Route hw1 hostKey \<noteq> None)
         in case programHostRoute ok r egressId fwd entryExistsInRouteTable hw1 of
              (Some e, hw2) \<Rightarrow> (Some e, hw2)
            | (None, hw2) \<Rightarrow>
                if entryExistsInRouteTable then
                  (if dchecks pf then
                     (case deleteLpmRoute (m_vrf r) (m_prefix r) (m_len r) hw2 of
                        (True, hw3) \<Rightarrow> (Some CheckFailure, hw3)
                      | (False, hw3) \<Rightarrow> (None, programmedHostRoute hostKey hw3))
                   else (None, programmedHostRoute hostKey hw2))
                else (None, hw2)))"

text \<open>The egress object of a forwarding decision; a next-hop decision acquires a reference
  on the multipath object of its next-hop set.\<close>

definition resolveEgress ::
  "Platform \<Rightarrow> BcmRoute \<Rightarrow> RouteNextHopEntry \<Rightarrow> BcmSwitch \<Rightarrow> error + int \<times> BcmSwitch" where
  "resolveEgress pf r fwd hw =
     (let action = getAction fwd in
      if action = DROP then Inr (dropEgressId pf, hw)
      else if action = TO_CPU then Inr (toCPUEgressId pf, hw)
      else
        (let nhops = getNextHopSet fwd in
         if \<not> length nhops > 0 then Inl CheckFailure
         else Inr (ecmpEgressId pf (m_vrf r, nhops),
                   incRefOrCreateBcmEcmpHost (m_vrf r, nhops) hw)))"

text \<open>
  \<open>program\<close>. The result is the error that leaves the call, if any, and the route and
  the switch as the call leaves them. \<open>ok\<close> is the answer of the hardware to the one
  write the call makes.
\<close>

definition program ::
  "Platform \<Rightarrow> bool \<Rightarrow> RouteNextHopEntry \<Rightarrow> BcmRoute \<times> BcmSwitch
   \<Rightarrow> error option \<times> BcmRoute \<times> BcmSwitch" where
  "program pf ok fwd st =
     (case st of (r, hw) \<Rightarrow>
        if m_added r \<and> fwd = m_fwd r then (None, r, hw)
        else
          (case resolveEgress pf r fwd hw of
             Inl e \<Rightarrow> (Some e, r, hw)
           | Inr (egressId, hw1) \<Rightarrow>
               (case (if canUseHostTable pf r
                      then programViaHostTable pf ok r egressId fwd hw1
                      else programLpmRoute ok r egressId fwd hw1) of
                  (Some e, hw2) \<Rightarrow>
                    (Some e, r,
                     if e = CheckFailure then hw2
                     else cleanupHost (m_vrf r) (getNextHopSet fwd) hw2)
                | (None, hw2) \<Rightarrow>
                    (None,
                     r\<lparr>m_egressId := egressId, m_fwd := fwd, m_added := True\<rparr>,
                     if m_added r then cleanupHost (m_vrf r) (getNextHopSet (m_fwd r)) hw2
                     else hw2))))"

text \<open>The destructor.\<close>

definition destroyBcmRoute :: "Platform \<Rightarrow> BcmRoute \<Rightarrow> BcmSwitch \<Rightarrow> error option \<times> BcmSwitch" where
  "destroyBcmRoute pf r hw =
     (if \<not> m_added r then (None, hw)
      else if canUseHostTable pf r \<and> hostTable hw (m_vrf r, m_prefix r) = None
      then (Some CheckFailure, hw)
      else
        (let hw1 = (if canUseHostTable pf r then derefBcmHost (m_vrf r, m_prefix r) hw
                    else snd (deleteLpmRoute (m_vrf r) (m_prefix r) (m_len r) hw));
             nhops = getNextHopSet (m_fwd r)
         in (None, if nhops \<noteq> [] then derefBcmEcmpHost (m_vrf r, nhops) hw1 else hw1)))"

section \<open>BcmRouteTable\<close>

record Key =
  network :: IPAddress
  mask :: nat
  vrf :: nat

definition Key_less :: "Key \<Rightarrow> Key \<Rightarrow> bool" where
  "Key_less k1 k2 =
     (if vrf k1 < vrf k2 then True
      else if vrf k1 > vrf k2 then False
      else if mask k1 < mask k2 then True
      else if mask k1 > mask k2 then False
      else addrKey (network k1) < addrKey (network k2))"

text \<open>The table is an ordered map from keys to routes: the list of its entries in the
  order of the keys. Two keys are equivalent when neither is less than the other.\<close>

type_synonym Fib = "(Key \<times> BcmRoute) list"

fun fibFind :: "Key \<Rightarrow> Fib \<Rightarrow> BcmRoute option" where
  "fibFind k [] = None"
| "fibFind k ((k', r) # rest) =
     (if \<not> Key_less k k' \<and> \<not> Key_less k' k then Some r else fibFind k rest)"

fun fibEmplace :: "Key \<Rightarrow> BcmRoute \<Rightarrow> Fib \<Rightarrow> Fib" where
  "fibEmplace k r [] = [(k, r)]"
| "fibEmplace k r ((k', r') # rest) =
     (if Key_less k k' then (k, r) # (k', r') # rest
      else if Key_less k' k then (k', r') # fibEmplace k r rest
      else (k', r') # rest)"

fun fibErase :: "Key \<Rightarrow> Fib \<Rightarrow> Fib" where
  "fibErase k [] = []"
| "fibErase k ((k', r) # rest) =
     (if \<not> Key_less k k' \<and> \<not> Key_less k' k then rest else (k', r) # fibErase k rest)"

text \<open>The route that the iterator points to is changed in place.\<close>

fun fibStore :: "Key \<Rightarrow> BcmRoute \<Rightarrow> Fib \<Rightarrow> Fib" where
  "fibStore k r [] = []"
| "fibStore k r ((k', r') # rest) =
     (if \<not> Key_less k k' \<and> \<not> Key_less k' k then (k', r) # rest
      else (k', r') # fibStore k r rest)"

text \<open>What \<open>addRoute\<close> and \<open>deleteRoute\<close> read of their route argument.\<close>

record Route =
  prefix_network :: IPAddress
  prefix_mask :: nat
  isResolved :: bool
  getForwardInfo :: RouteNextHopEntry

definition keyOf :: "nat \<Rightarrow> Route \<Rightarrow> Key" where
  "keyOf v route = \<lparr>network = prefix_network route, mask = prefix_mask route, vrf = v\<rparr>"

text \<open>
  \<open>addRoute\<close>. The \<open>emplace\<close> gives the route that is in the table under the key, or
  puts a new, empty route there; creating a route does not fail, so the \<open>SCOPE_FAIL\<close>
  that would take the new slot out again never runs. A failure of \<open>program\<close> is outside
  the scope of that \<open>SCOPE_FAIL\<close>: the slot stays.
\<close>

definition addRoute ::
  "Platform \<Rightarrow> bool \<Rightarrow> nat \<Rightarrow> Route \<Rightarrow> Fib \<times> BcmSwitch \<Rightarrow> error option \<times> Fib \<times> BcmSwitch" where
  "addRoute pf ok v route st =
     (case st of (fib, hw) \<Rightarrow>
        (let key = keyOf v route;
             (r, fib1) =
               (case fibFind key fib of
                  Some existing \<Rightarrow> (existing, fib)
                | None \<Rightarrow>
                    (let created = newBcmRoute v (prefix_network route) (prefix_mask route)
                     in (created, fibEmplace key created fib)))
         in if \<not> isResolved route then (Some CheckFailure, fib1, hw)
            else
              (case (if getAction (getForwardInfo route) = NEXTHOPS
                     then map_option
                            (\<lambda>nhops. NextHopsEntry nhops (getAdminDistance (getForwardInfo route)))
                            (normalizeNextHops (ecmp_width pf)
                               (getNextHopSet (getForwardInfo route)))
                     else Some (getForwardInfo route)) of
                 None \<Rightarrow> (Some UndefinedBehaviour, fib1, hw)
               | Some fwd \<Rightarrow>
                   (case program pf ok fwd (r, hw) of
                      (e, r', hw') \<Rightarrow> (e, fibStore key r' fib1, hw')))))"

definition deleteRoute ::
  "Platform \<Rightarrow> nat \<Rightarrow> Route \<Rightarrow> Fib \<times> BcmSwitch \<Rightarrow> error option \<times> Fib \<times> BcmSwitch" where
  "deleteRoute pf v route st =
     (case st of (fib, hw) \<Rightarrow>
        (let key = keyOf v route in
         case fibFind key fib of
           None \<Rightarrow> (Some FbossError, fib, hw)
         | Some r \<Rightarrow>
             (case destroyBcmRoute pf r hw of
                (e, hw') \<Rightarrow> (e, fibErase key fib, hw'))))"

section \<open>Notions used by the claims\<close>

text \<open>The outstanding references on a multipath object, and on a host object, in a record
  of calls: acquire calls minus release calls.\<close>

definition ecmpRefBalance :: "HwCall list \<Rightarrow> BcmEcmpHostKey \<Rightarrow> int" where
  "ecmpRefBalance cs k =
     int (count_list cs (IncRefOrCreateBcmEcmpHost k)) - int (count_list cs (DerefBcmEcmpHost k))"

definition hostRefBalance :: "HwCall list \<Rightarrow> BcmHostKey \<Rightarrow> int" where
  "hostRefBalance cs h =
     int (count_list cs (IncRefOrCreateBcmHost h)) - int (count_list cs (DerefBcmHost h))"

text \<open>A route points at the multipath object of \<open>(vrf, next-hop set)\<close> when it is
  programmed with a next-hop decision for that set in that vrf.\<close>

definition pointsAt :: "BcmEcmpHostKey \<Rightarrow> BcmRoute \<Rightarrow> bool" where
  "pointsAt k r =
     (m_added r \<and> getAction (m_fwd r) = NEXTHOPS \<and> m_vrf r = fst k \<and>
      getNextHopSet (m_fwd r) = snd k)"

definition routesPointingAt :: "BcmEcmpHostKey \<Rightarrow> Fib \<Rightarrow> nat" where
  "routesPointingAt k fib = length (filter (pointsAt k) (map snd fib))"

text \<open>A programmed next-hop decision has next hops: \<open>program\<close> checks it.\<close>

definition wfRoute :: "BcmRoute \<Rightarrow> bool" where
  "wfRoute r = (\<not> (m_added r \<and> getAction (m_fwd r) = NEXTHOPS \<and> getNextHopSet (m_fwd r) = []))"

text \<open>A sequence of calls on the table; it is successful when no call ends in an error.\<close>

datatype RouteOp = AddRouteOp bool nat Route | DeleteRouteOp nat Route

fun applyOp :: "Platform \<Rightarrow> RouteOp \<Rightarrow> Fib \<times> BcmSwitch \<Rightarrow> error option \<times> Fib \<times> BcmSwitch" where
  "applyOp pf (AddRouteOp ok v route) st = addRoute pf ok v route st"
| "applyOp pf (DeleteRouteOp v route) st = deleteRoute pf v route st"

fun runOps :: "Platform \<Rightarrow> RouteOp list \<Rightarrow> Fib \<times> BcmSwitch \<Rightarrow> (Fib \<times> BcmSwitch) option" where
  "runOps pf [] st = Some st"
| "runOps pf (op # ops) st =
     (case applyOp pf op st of
        (None, st') \<Rightarrow> runOps pf ops st'
      | (Some e, st') \<Rightarrow> None)"

text \<open>Concrete inputs: a platform with host-table shortcuts and width 64, the same with
  width 1, a host route that is programmed through the host table, and next hops.\<close>

definition examplePlatform :: Platform where
  "examplePlatform =
     \<lparr>canUseHostTableForHostRoutes = True, dropEgressId = 100, toCPUEgressId = 101,
      ecmpEgressId = (\<lambda>k. 200), ecmp_width = 64, dchecks = False\<rparr>"

definition narrowPlatform :: Platform where
  "narrowPlatform = examplePlatform\<lparr>ecmp_width := 1\<rparr>"

definition nextHopA :: NextHop where
  "nextHopA = ResolvedNextHop (IPAddressV4 1) 1 1"

definition nextHopB :: NextHop where
  "nextHopB = ResolvedNextHop (IPAddressV4 2) 1 1"

definition emptySwitch :: BcmSwitch where
  "emptySwitch =
     \<lparr>calls = [], hostTable = Map.empty, lpmTable = Map.empty, vrfAndIP2Route = Map.empty,
      vrfAndPrefix2Route = Map.empty\<rparr>"

definition programmedHostRouteEntry :: BcmRoute where
  "programmedHostRouteEntry =
     \<lparr>m_vrf = 0, m_prefix = IPAddressV4 10, m_len = 32, m_fwd = DropEntry 0,
      m_egressId = 100, m_added = True\<rparr>"

definition switchWithHost :: BcmSwitch where
  "switchWithHost =
     emptySwitch\<lparr>hostTable :=
       [(0, IPAddressV4 10) \<mapsto> \<lparr>refCount = 1, hostEgressId = 100, addedInHW = True\<rparr>]\<rparr>"

definition exampleRoute1 :: Route where
  "exampleRoute1 =
     \<lparr>prefix_network = IPAddressV4 1000, prefix_mask = 24, isResolved = True,
      getForwardInfo = NextHopsEntry [nextHopA, nextHopB] 10\<rparr>"

definition exampleRoute2 :: Route where
  "exampleRoute2 =
     \<lparr>prefix_network = IPAddressV4 2000, prefix_mask = 24, isResolved = True,
      getForwardInfo = NextHopsEntry [nextHopA, nextHopB] 10\<rparr>"

definition exampleOps :: "RouteOp list" where
  "exampleOps =
     [AddRouteOp True 0 exampleRoute1, AddRouteOp True 0 exampleRoute2,
      DeleteRouteOp 0 exampleRoute1]"

text \<open>A switch whose warm boot cache has found the host route \<open>10/32\<close> of vrf 0 in
  the route table.\<close>

definition warmBootSwitch :: BcmSwitch where
  "warmBootSwitch =
     emptySwitch\<lparr>
       lpmTable := [(0, IPAddressV4 10, 32) \<mapsto> (initL3RouteFromArgs 0 (IPAddressV4 10) 32)\<lparr>l3a_intf := 200\<rparr>],
       vrfAndIP2Route := [(0, IPAddressV4 10) \<mapsto> (initL3RouteFromArgs 0 (IPAddressV4 10) 32)\<lparr>l3a_intf := 200\<rparr>]\<rparr>"

text \<open>The calls by which the destructor of a route releases the reference on the
  multipath object of its next hops.\<close>

definition releaseCalls :: "BcmRoute \<Rightarrow> HwCall list" where
  "releaseCalls r =
     (if getNextHopSet (m_fwd r) \<noteq> []
      then [DerefBcmEcmpHost (m_vrf r, getNextHopSet (m_fwd r))] else [])"

definition exampleEntry1 :: BcmRoute where
  "exampleEntry1 =
     \<lparr>m_vrf = 0, m_prefix = IPAddressV4 1000, m_len = 24,
      m_fwd = NextHopsEntry [nextHopA, nextHopB] 10, m_egressId = 200, m_added = True\<rparr>"

definition exampleFib :: Fib where
  "exampleFib = [(keyOf 0 exampleRoute1, exampleEntry1)]"

definition fortyNines :: "NextHop list" where
  "fortyNines = [ResolvedNextHop (IPAddressV4 1) 1 49, ResolvedNextHop (IPAddressV4 2) 1 49]"

text \<open>
  In a record of calls every acquired reference is released later: after each call that
  acquires a reference on a multipath object or on a host object, the rest of the record
  holds more releases of that object than acquisitions of it.
\<close>

fun releasedLater :: "HwCall list \<Rightarrow> bool" where
  "releasedLater [] = True"
| "releasedLater (c # cs) =
     ((case c of
         IncRefOrCreateBcmEcmpHost k \<Rightarrow>
           count_list cs (IncRefOrCreateBcmEcmpHost k) < count_list cs (DerefBcmEcmpHost k)
       | IncRefOrCreateBcmHost h \<Rightarrow>
           count_list cs (IncRefOrCreateBcmHost h) < count_list cs (DerefBcmHost h)
       | _ \<Rightarrow> True) \<and>
      releasedLater cs)"

text \<open>
  A host route that is added as a drop route, and then updated with one next hop by an
  \<open>addRoute\<close> whose hardware write fails.
\<close>

definition hostRouteDrop :: Route where
  "hostRouteDrop =
     \<lparr>prefix_network = IPAddressV4 10, prefix_mask = 32, isResolved = True,
      getForwardInfo = DropEntry 10\<rparr>"

definition hostRouteNextHop :: Route where
  "hostRouteNextHop =
     \<lparr>prefix_network = IPAddressV4 10, prefix_mask = 32, isResolved = True,
      getForwardInfo = NextHopsEntry [nextHopA] 10\<rparr>"

definition afterAddDrop :: "Fib \<times> BcmSwitch" where
  "afterAddDrop = snd (addRoute examplePlatform True 0 hostRouteDrop ([], emptySwitch))"

definition afterFailedUpdate :: "Fib \<times> BcmSwitch" where
  "afterFailedUpdate = snd (addRoute examplePlatform False 0 hostRouteNextHop afterAddDrop)"

section \<open>Rounding to double precision\<close>

text \<open>The rounding is within a relative error of \<open>2\<^sup>-\<^sup>5\<^sup>3\<close>, and natural numbers below
  \<open>2\<^sup>5\<^sup>3\<close> are doubles. So a scaled weight is the exact floor or one less, as long as the
  product of total weight and width is at most \<open>2\<^sup>5\<^sup>1\<close>.\<close>

lemma pow2_powi: "pow2 e = 2 powi e"
  by (simp add: pow2_def power_int_def power_one_over inverse_eq_divide)

lemma pow2_pos [simp]: "0 < pow2 e"
  by (simp add: pow2_def)

lemma pow2_nonneg [simp]: "0 \<le> pow2 e"
  by (simp add: pow2_def)

lemma pow2_neq0 [simp]: "pow2 e \<noteq> 0"
  by (simp add: pow2_def)

lemma pow2_add: "pow2 (a + b) = pow2 a * pow2 b"
  by (simp add: pow2_powi power_int_add)

lemma pow2_mono: "a \<le> b \<Longrightarrow> pow2 a \<le> pow2 b"
  by (simp add: pow2_powi power_int_increasing)

lemma pow2_nat: "0 \<le> e \<Longrightarrow> pow2 e = 2 ^ nat e"
  by (simp add: pow2_def)

lemma ilog2_bounds:
  assumes "0 < x"
  shows "pow2 (ilog2 x) \<le> x \<and> x < pow2 (ilog2 x + 1)"
proof -
  obtain p q where pq: "quotient_of x = (p, q)" by (cases "quotient_of x")
  have q: "0 < q" using pq by (rule quotient_of_denom_pos)
  have x: "x = of_int p / of_int q" using pq by (rule quotient_of_div)
  have p: "0 < p" using assms q x by (simp add: zero_less_divide_iff)
  define k where "k = bitlen p - bitlen q"
  have bp: "1 \<le> bitlen p" "1 \<le> bitlen q"
    using p q by (simp_all add: bitlen_alt_def)
  have p1: "pow2 (bitlen p - 1) \<le> of_int p"
  proof -
    have "(2::int) ^ nat (bitlen p - 1) \<le> p" using bitlen_bounds [OF p] by simp
    then have "of_int ((2::int) ^ nat (bitlen p - 1)) \<le> (of_int p :: rat)"
      by (simp only: of_int_le_iff)
    then show ?thesis using bp by (simp add: pow2_nat)
  qed
  have p2: "of_int p < pow2 (bitlen p)"
  proof -
    have "p < (2::int) ^ nat (bitlen p)" using bitlen_bounds [OF p] by simp
    then have "(of_int p :: rat) < of_int ((2::int) ^ nat (bitlen p))"
      by (simp only: of_int_less_iff)
    then show ?thesis using bp by (simp add: pow2_nat)
  qed
  have q1: "pow2 (bitlen q - 1) \<le> of_int q"
  proof -
    have "(2::int) ^ nat (bitlen q - 1) \<le> q" using bitlen_bounds [OF q] by simp
    then have "of_int ((2::int) ^ nat (bitlen q - 1)) \<le> (of_int q :: rat)"
      by (simp only: of_int_le_iff)
    then show ?thesis using bp by (simp add: pow2_nat)
  qed
  have q2: "of_int q < pow2 (bitlen q)"
  proof -
    have "q < (2::int) ^ nat (bitlen q)" using bitlen_bounds [OF q] by simp
    then have "(of_int q :: rat) < of_int ((2::int) ^ nat (bitlen q))"
      by (simp only: of_int_less_iff)
    then show ?thesis using bp by (simp add: pow2_nat)
  qed
  have qpos: "(0::rat) < of_int q" using q by simp
  have lo: "pow2 (k - 1) < x"
  proof -
    have "pow2 (k - 1) * pow2 (bitlen q) = pow2 (bitlen p - 1)"
      by (simp add: k_def pow2_add [symmetric])
    then have "pow2 (k - 1) * of_int q < pow2 (bitlen p - 1)"
      using q2 mult_strict_left_mono [OF q2 pow2_pos [of "k - 1"]] by simp
    then have "pow2 (k - 1) * of_int q < of_int p" using p1 by simp
    then show ?thesis using qpos by (simp add: x pos_less_divide_eq)
  qed
  have hi: "x < pow2 (k + 1)"
  proof -
    have "pow2 (k + 1) * pow2 (bitlen q - 1) = pow2 (bitlen p)"
      by (simp add: k_def pow2_add [symmetric])
    then have "pow2 (bitlen p) \<le> pow2 (k + 1) * of_int q"
      using mult_left_mono [OF q1, of "pow2 (k + 1)"] by simp
    then have "of_int p < pow2 (k + 1) * of_int q" using p2 by simp
    then show ?thesis using qpos by (simp add: x pos_divide_less_eq)
  qed
  have il: "ilog2 x = (if pow2 k \<le> x then k else k - 1)"
    by (simp add: ilog2_def pq k_def Let_def)
  show ?thesis
    using lo hi by (auto simp: il)
qed

lemma round_even_err: "\<bar>of_int (round_even m) - m\<bar> \<le> 1 / 2"
proof -
  define n where "n = \<lfloor>m\<rfloor>"
  define d where "d = m - of_int n"
  have d: "0 \<le> d" "d < 1" unfolding d_def n_def by linarith+
  have m: "m = of_int n + d" by (simp add: d_def)
  have r: "round_even m = (if d < 1 / 2 then n else if 1 / 2 < d then n + 1
                           else if even n then n else n + 1)"
    by (simp add: round_even_def Let_def n_def d_def)
  have n: "\<bar>of_int n - m\<bar> = d" using d by (simp add: m)
  have n1: "\<bar>of_int (n + 1) - m\<bar> = 1 - d" using d by (simp add: m)
  show ?thesis
  proof (cases "d < 1 / 2")
    case True
    then have "round_even m = n" by (simp add: r)
    then show ?thesis using n True by simp
  next
    case False
    show ?thesis
    proof (cases "1 / 2 < d")
      case True
      then have "round_even m = n + 1" using False by (simp add: r)
      then show ?thesis using n1 True by simp
    next
      case half: False
      then have dh: "d = 1 / 2" using False by simp
      have "round_even m = n \<or> round_even m = n + 1" using False half by (simp add: r)
      then show ?thesis using n n1 dh by auto
    qed
  qed
qed

lemma round_even_of_int [simp]: "round_even (of_int z) = z"
  by (simp add: round_even_def)

lemma to_double_err:
  assumes "0 < x"
  shows "\<bar>to_double x - x\<bar> \<le> x / 2 ^ 53"
proof -
  define e where "e = ilog2 x - 52"
  define m where "m = x / pow2 e"
  have td: "to_double x = of_int (round_even m) * pow2 e"
    using assms by (simp add: to_double_def Let_def e_def m_def)
  have xm: "x = m * pow2 e" by (simp add: m_def)
  have "\<bar>to_double x - x\<bar> = \<bar>of_int (round_even m) - m\<bar> * pow2 e"
    unfolding td by (subst xm) (simp add: left_diff_distrib [symmetric] abs_mult)
  also have "\<dots> \<le> (1 / 2) * pow2 e"
    by (intro mult_right_mono round_even_err) simp
  also have "\<dots> = pow2 (ilog2 x) / 2 ^ 53"
  proof -
    have "pow2 (ilog2 x) = pow2 e * pow2 52"
      by (simp add: e_def pow2_add [symmetric])
    moreover have "pow2 52 = 2 ^ 52" using pow2_nat [of 52] by simp
    moreover have "(2::rat) ^ 53 = 2 * 2 ^ 52" by simp
    ultimately show ?thesis by simp
  qed
  also have "\<dots> \<le> x / 2 ^ 53"
    using ilog2_bounds [OF assms] by (simp add: divide_right_mono)
  finally show ?thesis .
qed

lemma to_double_of_nat:
  assumes "n < 2 ^ 53"
  shows "to_double (of_nat n) = of_nat n"
proof (cases "n = 0")
  case True
  then show ?thesis by (simp add: to_double_def)
next
  case False
  define x :: rat where "x = of_nat n"
  have x: "0 < x" "x < 2 ^ 53"
  proof -
    show "0 < x" using False by (simp add: x_def)
    have "(of_nat n :: rat) < of_nat (2 ^ 53)" using assms by (simp only: of_nat_less_iff)
    then show "x < 2 ^ 53" by (simp add: x_def)
  qed
  define e where "e = ilog2 x - 52"
  have p53: "pow2 53 = 2 ^ 53" using pow2_nat [of 53] by simp
  have "pow2 (ilog2 x) \<le> x" using ilog2_bounds [OF x(1)] by simp
  then have "pow2 (ilog2 x) < pow2 53"
    using x(2) unfolding p53 by (rule le_less_trans)
  then have "ilog2 x < 53"
    using pow2_mono [of 53 "ilog2 x"] by (cases "ilog2 x < 53") auto
  then have e: "e \<le> 0" by (simp add: e_def)
  have pe: "pow2 e * 2 ^ nat (- e) = 1"
    using e by (simp add: pow2_def)
  have "x / pow2 e = x * 2 ^ nat (- e)"
    using pe by (simp add: field_simps)
  also have "\<dots> = of_int (int n * 2 ^ nat (- e))"
    by (simp add: x_def)
  finally have m: "x / pow2 e = of_int (int n * 2 ^ nat (- e))" .
  have "to_double x = of_int (round_even (x / pow2 e)) * pow2 e"
    using x(1) by (simp add: to_double_def Let_def e_def)
  also have "\<dots> = of_int (int n * 2 ^ nat (- e)) * pow2 e"
    by (simp only: m round_even_of_int)
  also have "\<dots> = x * (pow2 e * 2 ^ nat (- e))"
    by (simp add: x_def)
  also have "\<dots> = x" using pe by simp
  finally show ?thesis by (simp add: x_def)
qed

lemma rel_of_abs:
  fixes t x u :: rat
  shows "\<bar>t - x\<bar> \<le> x * u \<Longrightarrow> x * (1 - u) \<le> t \<and> t \<le> x * (1 + u)"
  by (simp add: abs_le_iff algebra_simps)

lemma to_double_rel:
  assumes "0 < x" "u = 1 / 2 ^ 53"
  shows "x * (1 - u) \<le> to_double x \<and> to_double x \<le> x * (1 + u)"
proof -
  have "x / 2 ^ 53 = x * u" unfolding assms(2) by (simp only: times_divide_eq_right mult_1_right)
  then have "\<bar>to_double x - x\<bar> \<le> x * u" using to_double_err [OF assms(1)] by (simp only:)
  then show ?thesis by (rule rel_of_abs)
qed

lemma scaledWeight_bounds:
  assumes "T * W \<le> 2 ^ 51" "1 \<le> w" "w \<le> T"
  shows "scaledWeight (scaleFactor W T) w \<le> max 1 (w * W div T) \<and>
         max 1 (w * W div T) \<le> scaledWeight (scaleFactor W T) w + 1"
proof (cases "W = 0")
  case True
  then show ?thesis
    by (simp add: scaledWeight_def scaleFactor_def to_double_def)
next
  case False
  then have W: "1 \<le> W" by simp
  have T1: "1 \<le> T" using assms(2,3) by simp
  have "T \<le> T * W" using W by simp
  then have T51: "T \<le> 2 ^ 51" using assms(1) by (rule le_trans)
  have T53: "T < 2 ^ 53" "w < 2 ^ 53"
  proof -
    have lt: "(2::nat) ^ 51 < 2 ^ 53" by simp
    from T51 lt show "T < 2 ^ 53" by (rule le_less_trans)
    with assms(3) show "w < 2 ^ 53" by (rule le_less_trans)
  qed
  define u :: rat where "u = 1 / 2 ^ 53"
  define a :: rat where "a = of_nat W / of_nat T"
  define q where "q = to_double a"
  define x :: rat where "x = of_nat w * a"
  define y :: rat where "y = of_nat w * q"
  define p where "p = to_double y"
  define K :: rat where "K = of_nat (w * W)"
  define n where "n = w * W div T"
  have u: "0 < u" "u < 1" by (simp_all add: u_def)
  have Tpos: "(0::rat) < of_nat T" "(1::rat) \<le> of_nat T" using T1 by simp_all
  have apos: "0 < a" using W T1 by (simp add: a_def)
  have wpos: "(0::rat) < of_nat w" using assms(2) by simp
  have xpos: "0 < x" using apos wpos by (simp add: x_def)
  have qb: "a * (1 - u) \<le> q" "q \<le> a * (1 + u)"
    using to_double_rel [OF apos u_def] by (simp_all add: q_def)
  have yb: "x * (1 - u) \<le> y" "y \<le> x * (1 + u)"
    using mult_left_mono [OF qb(1), of "of_nat w"] mult_left_mono [OF qb(2), of "of_nat w"] wpos
    by (simp_all add: x_def y_def mult.assoc)
  have ypos: "0 < y"
  proof -
    have "0 < x * (1 - u)" using xpos u by simp
    then show ?thesis using yb(1) by simp
  qed
  have pb: "y * (1 - u) \<le> p" "p \<le> y * (1 + u)"
    using to_double_rel [OF ypos u_def] by (simp_all add: p_def)
  have p_hi: "p \<le> x * (1 + u) * (1 + u)"
  proof -
    have "y * (1 + u) \<le> x * (1 + u) * (1 + u)"
      by (rule mult_right_mono [OF yb(2)]) (use u in simp)
    with pb(2) show ?thesis by (rule order_trans)
  qed
  have p_lo: "x * (1 - u) * (1 - u) \<le> p"
  proof -
    have "x * (1 - u) * (1 - u) \<le> y * (1 - u)"
      by (rule mult_right_mono [OF yb(1)]) (use u in simp)
    then show ?thesis using pb(1) by (rule order_trans)
  qed
  have xK: "x = K / of_nat T" by (simp add: x_def a_def K_def)
  have K51: "K \<le> 2 ^ 51"
  proof -
    have "w * W \<le> T * W" using assms(3) by (rule mult_le_mono1)
    then have "w * W \<le> 2 ^ 51" using assms(1) by (rule le_trans)
    then have "(of_nat (w * W) :: rat) \<le> of_nat (2 ^ 51)" by (simp only: of_nat_le_iff)
    then show ?thesis by (simp add: K_def)
  qed
  have K0: "0 \<le> K" by (simp add: K_def)
  have dm: "w * W = n * T + w * W mod T" by (simp add: n_def)
  have r: "w * W mod T + 1 \<le> T" using T1 by (simp add: Suc_leI)
  have x_lo: "of_nat n \<le> x"
  proof -
    have "n * T \<le> w * W" using dm by simp
    then have "(of_nat (n * T) :: rat) \<le> of_nat (w * W)" by (simp only: of_nat_le_iff)
    then have "of_nat n * of_nat T \<le> K" by (simp add: K_def)
    then show ?thesis using Tpos(1) by (simp add: xK pos_le_divide_eq)
  qed
  have x_hi: "x + 1 / of_nat T \<le> of_nat n + 1"
  proof -
    have "w * W + 1 \<le> (n + 1) * T" using dm r by (simp add: algebra_simps)
    then have "(of_nat (w * W + 1) :: rat) \<le> of_nat ((n + 1) * T)" by (simp only: of_nat_le_iff)
    then have "K + 1 \<le> (of_nat n + 1) * of_nat T" by (simp add: K_def algebra_simps)
    then have "(K + 1) / of_nat T \<le> of_nat n + 1"
      using Tpos(1) by (simp add: pos_divide_le_eq)
    then show ?thesis by (simp add: xK add_divide_distrib)
  qed
  have small: "K * (2 * u + u * u) < 1"
  proof -
    have "K * (2 * u + u * u) \<le> 2 ^ 51 * (2 * u + u * u)"
      using K51 u by (intro mult_right_mono) simp_all
    also have "\<dots> < 1" by (simp add: u_def)
    finally show ?thesis .
  qed
  have upper: "p < of_nat n + 1"
  proof -
    have "x * (1 + u) * (1 + u) = x + K * (2 * u + u * u) / of_nat T"
      by (simp add: xK algebra_simps add_divide_distrib)
    also have "\<dots> < x + 1 / of_nat T"
      using small Tpos(1) by (simp add: divide_strict_right_mono)
    finally show ?thesis using p_hi x_hi by simp
  qed
  have lower: "of_nat n - 1 \<le> p"
  proof -
    have "K * 1 \<le> K * of_nat T" using Tpos(2) K0 by (rule mult_left_mono)
    then have xK': "x \<le> K" using Tpos(1) by (simp add: xK pos_divide_le_eq)
    have "2 * u * x \<le> 2 * u * K" using xK' u by simp
    also have "\<dots> \<le> 2 * u * 2 ^ 51" using K51 u by simp
    also have "\<dots> \<le> 1" by (simp add: u_def)
    finally have s: "2 * u * x \<le> 1" .
    have "x * (1 - u) * (1 - u) = x - 2 * u * x + x * u * u" by (simp add: algebra_simps)
    moreover have "0 \<le> x * u * u" using xpos u by simp
    ultimately have "x - 2 * u * x \<le> x * (1 - u) * (1 - u)" by simp
    then show ?thesis using p_lo x_lo s by simp
  qed
  have fl: "\<lfloor>p\<rfloor> \<le> int n" "int n - 1 \<le> \<lfloor>p\<rfloor>"
  proof -
    have "p < of_int (int n + 1)" using upper by simp
    then have "\<lfloor>p\<rfloor> < int n + 1" by (simp only: floor_less_iff)
    then show "\<lfloor>p\<rfloor> \<le> int n" by simp
    have "of_int (int n - 1) \<le> p" using lower by simp
    then show "int n - 1 \<le> \<lfloor>p\<rfloor>" by (simp only: le_floor_iff)
  qed
  have sw: "scaledWeight (scaleFactor W T) w = max (nat \<lfloor>p\<rfloor>) 1"
    using to_double_of_nat [OF T53(1)] to_double_of_nat [OF T53(2)]
    by (simp add: scaledWeight_def scaleFactor_def p_def y_def q_def a_def)
  show ?thesis
    unfolding sw n_def [symmetric] using fl by (auto simp: max_def)
qed

text \<open>Below the width's total, scaling never increases a weight.\<close>

lemma scaledWeight_le:
  assumes "W < T" "T \<le> 2 ^ 51" "1 \<le> w" "w \<le> T"
  shows "scaledWeight (scaleFactor W T) w \<le> w"
proof (cases "W = 0")
  case True
  then show ?thesis
    using assms(3) by (simp add: scaledWeight_def scaleFactor_def to_double_def)
next
  case False
  then have W: "1 \<le> W" by simp
  have T1: "1 \<le> T" using assms(3,4) by simp
  have T53: "T < 2 ^ 53" "w < 2 ^ 53"
  proof -
    have lt: "(2::nat) ^ 51 < 2 ^ 53" by simp
    from assms(2) lt show "T < 2 ^ 53" by (rule le_less_trans)
    with assms(4) show "w < 2 ^ 53" by (rule le_less_trans)
  qed
  define u :: rat where "u = 1 / 2 ^ 53"
  define a :: rat where "a = of_nat W / of_nat T"
  define q where "q = to_double a"
  define y :: rat where "y = of_nat w * q"
  define p where "p = to_double y"
  have u: "0 < u" "u < 1" by (simp_all add: u_def)
  have Tpos: "(0::rat) < of_nat T" using T1 by simp
  have apos: "0 < a" using W T1 by (simp add: a_def)
  have wpos: "(0::rat) < of_nat w" using assms(3) by simp
  have qb: "a * (1 - u) \<le> q" "q \<le> a * (1 + u)"
    using to_double_rel [OF apos u_def] by (simp_all add: q_def)
  have qpos: "0 < q"
  proof -
    have "0 < a * (1 - u)" using apos u by simp
    then show ?thesis using qb(1) by simp
  qed
  have ypos: "0 < y" using wpos qpos by (simp add: y_def)
  have pb: "p \<le> y * (1 + u)"
    using to_double_rel [OF ypos u_def] by (simp add: p_def)
  have a_le: "a \<le> 1 - 1 / of_nat T"
  proof -
    have "W + 1 \<le> T" using assms(1) by simp
    then have "(of_nat (W + 1) :: rat) \<le> of_nat T" by (simp only: of_nat_le_iff)
    then have "(of_nat W :: rat) \<le> of_nat T - 1" by simp
    then have "of_nat W / of_nat T \<le> (of_nat T - 1) / (of_nat T :: rat)"
      using Tpos by (simp only: divide_right_mono less_imp_le)
    also have "\<dots> = 1 - 1 / of_nat T" using Tpos by (simp add: diff_divide_distrib)
    finally show ?thesis by (simp only: a_def)
  qed
  have a1: "a \<le> 1"
  proof -
    have "0 \<le> 1 / (of_nat T :: rat)" by simp
    with a_le show ?thesis by linarith
  qed
  have small: "2 * u + u * u \<le> 1 / of_nat T"
  proof -
    have "(of_nat T :: rat) \<le> of_nat (2 ^ 51)" using assms(2) by (simp only: of_nat_le_iff)
    then have T51: "(of_nat T :: rat) \<le> 2 ^ 51" by simp
    have "(2 * u + u * u) * of_nat T \<le> (2 * u + u * u) * 2 ^ 51"
      using T51 u by (intro mult_left_mono) simp_all
    also have "\<dots> \<le> 1" by (simp add: u_def)
    finally show ?thesis using Tpos by (simp add: pos_le_divide_eq)
  qed
  have fac: "q * (1 + u) \<le> 1"
  proof -
    have "q * (1 + u) \<le> a * (1 + u) * (1 + u)"
      by (rule mult_right_mono [OF qb(2)]) (use u in simp)
    also have "\<dots> = a + a * (2 * u + u * u)" by (simp add: algebra_simps)
    also have "\<dots> \<le> a + 1 * (2 * u + u * u)"
      using a1 u by (intro add_left_mono mult_right_mono) simp_all
    also have "\<dots> \<le> 1" using a_le small by simp
    finally show ?thesis .
  qed
  have "p \<le> of_nat w * (q * (1 + u))" using pb by (simp add: y_def mult.assoc)
  also have "\<dots> \<le> of_nat w * 1"
    using fac wpos by (intro mult_left_mono) simp_all
  finally have "p \<le> of_int (int w)" by simp
  then have "\<lfloor>p\<rfloor> \<le> int w" by (metis floor_mono floor_of_int)
  then have fl: "nat \<lfloor>p\<rfloor> \<le> w" by simp
  have sw: "scaledWeight (scaleFactor W T) w = max (nat \<lfloor>p\<rfloor>) 1"
    using to_double_of_nat [OF T53(1)] to_double_of_nat [OF T53(2)]
    by (simp add: scaledWeight_def scaleFactor_def p_def y_def q_def a_def)
  show ?thesis unfolding sw using fl assms(3) by simp
qed

section \<open>Properties of normalizeNextHops\<close>

lemma nhKey_Resolved [simp]: "nhKey (ResolvedNextHop a i w) = (addrKey a, i)"
  by (simp add: nhKey_def ResolvedNextHop_def)

lemma addr_Resolved [simp]: "addr (ResolvedNextHop a i w) = a"
  by (simp add: ResolvedNextHop_def)

lemma intf_Resolved [simp]: "intf (ResolvedNextHop a i w) = i"
  by (simp add: ResolvedNextHop_def)

lemma weight_Resolved [simp]: "weight (ResolvedNextHop a i w) = w"
  by (simp add: ResolvedNextHop_def)

lemma Resolved_same [simp]: "ResolvedNextHop (addr nh) (intf nh) (weight nh) = nh"
  by (simp add: ResolvedNextHop_def)

lemma insertNextHop_last:
  "\<forall>y \<in> set acc. nhKey y < nhKey x \<Longrightarrow> insertNextHop x acc = acc @ [x]"
  by (induction acc) auto

lemma insertNextHop_first:
  "\<forall>y \<in> set ys. nhKey x < nhKey y \<Longrightarrow> insertNextHop x ys = x # ys"
  by (cases ys) auto

lemma fold_insert_sorted:
  "sorted_wrt (<) (map nhKey (acc @ xs)) \<Longrightarrow> (\<And>x. nhKey (f x) = nhKey x) \<Longrightarrow>
   fold (\<lambda>nhop a. insertNextHop (f nhop) a) xs acc = acc @ map f xs"
proof (induction xs arbitrary: acc)
  case Nil
  then show ?case by simp
next
  case (Cons x xs)
  have lt: "\<forall>y \<in> set acc. nhKey y < nhKey (f x)"
    using Cons.prems by (auto simp: sorted_wrt_append)
  have ins: "insertNextHop (f x) acc = acc @ [f x]"
    by (rule insertNextHop_last [OF lt])
  have srt: "sorted_wrt (<) (map nhKey ((acc @ [f x]) @ xs))"
    using Cons.prems by (simp add: sorted_wrt_append)
  show ?case
    using Cons.IH [OF srt Cons.prems(2)] ins by simp
qed

lemma nhKey_coerced [simp]: "nhKey (coerced nh) = nhKey nh"
  by (simp add: coerced_def nhKey_def)

lemma nhKey_scaled [simp]: "nhKey (scaled f nh) = nhKey nh"
  by (simp add: scaled_def nhKey_def)

lemma coerceNextHops_map:
  assumes "validSet S"
  shows "coerceNextHops S = map coerced S"
proof -
  have "fold (\<lambda>nhop a. insertNextHop (coerced nhop) a) S [] = [] @ map coerced S"
    by (rule fold_insert_sorted) (use assms in \<open>simp_all add: validSet_def\<close>)
  then show ?thesis
    by (simp add: coerceNextHops_def coerced_def)
qed

lemma fold_scale_gen:
  "sorted_wrt (<) (map nhKey (acc @ xs)) \<Longrightarrow> t < 2 ^ 64 \<Longrightarrow>
   fold (\<lambda>nhop (scaledNextHops, scaledTotalWeight).
             (let w = scaledWeight f (weight nhop) in
               (insertNextHop (ResolvedNextHop (addr nhop) (intf nhop) w) scaledNextHops,
                (scaledTotalWeight + w) mod 2 ^ 64))) xs (acc, t)
   = (acc @ map (scaled f) xs, (t + sum_list (map weight (map (scaled f) xs))) mod 2 ^ 64)"
proof (induction xs arbitrary: acc t)
  case Nil
  then show ?case by simp
next
  case (Cons x xs)
  have lt: "\<forall>y \<in> set acc. nhKey y < nhKey (scaled f x)"
    using Cons.prems by (auto simp: sorted_wrt_append)
  have ins: "insertNextHop (scaled f x) acc = acc @ [scaled f x]"
    by (rule insertNextHop_last [OF lt])
  have srt: "sorted_wrt (<) (map nhKey ((acc @ [scaled f x]) @ xs))"
    using Cons.prems by (simp add: sorted_wrt_append)
  have step: "insertNextHop (ResolvedNextHop (addr x) (intf x) (scaledWeight f (weight x))) acc
      = acc @ [scaled f x]"
    using ins by (simp add: scaled_def)
  have w: "weight (scaled f x) = scaledWeight f (weight x)"
    by (simp add: scaled_def)
  have bound: "(t + scaledWeight f (weight x)) mod 2 ^ 64 < (2 ^ 64 :: nat)"
    by simp
  have md: "((t + scaledWeight f (weight x)) mod 2 ^ 64 + r) mod 2 ^ 64
      = (t + (scaledWeight f (weight x) + r)) mod 2 ^ 64" for r :: nat
    by (simp add: mod_add_left_eq add.assoc)
  show ?case
    using Cons.IH [OF srt bound] step w md
    by (simp add: Let_def)
qed

lemma scaleNextHops_map:
  "validSet N \<Longrightarrow>
   scaleNextHops f N = (map (scaled f) N, totalWeightOf (map (scaled f) N) mod 2 ^ 64)"
  unfolding scaleNextHops_def validSet_def totalWeightOf_def
  using fold_scale_gen [of "[]" N 0 f] by simp

lemma uint64_of_int_nat: "n < 2 ^ 64 \<Longrightarrow> uint64_of_int (int n) = n"
  by (simp add: uint64_of_int_def nat_mod_distrib)

lemma int_of_uint64_small: "n < 2 ^ 31 \<Longrightarrow> int_of_uint64 n = int n"
  by (simp add: int_of_uint64_def Let_def)

lemma fold_accumulate_small:
  "a + totalWeightOf xs \<le> INT_MAX \<Longrightarrow>
   fold (\<lambda>nh acc. int_of_uint64 ((uint64_of_int acc + weight nh) mod 2 ^ 64)) xs (int a)
     = int (a + totalWeightOf xs)"
proof (induction xs arbitrary: a)
  case Nil
  then show ?case by (simp add: totalWeightOf_def)
next
  case (Cons x xs)
  have le: "a + weight x + totalWeightOf xs \<le> INT_MAX"
    using Cons.prems by (simp add: totalWeightOf_def)
  then have small: "a + weight x < 2 ^ 31" "a < 2 ^ 64"
    by (simp_all add: INT_MAX_def)
  then have m: "(a + weight x) mod 2 ^ 64 = a + weight x"
    by simp
  have step: "int_of_uint64 ((uint64_of_int (int a) + weight x) mod 2 ^ 64) = int (a + weight x)"
    using small m by (simp only: uint64_of_int_nat int_of_uint64_small)
  show ?case
    using Cons.IH [OF le] step by (simp add: totalWeightOf_def add.assoc)
qed

lemma accumulateWeights_small:
  assumes "totalWeightOf xs \<le> INT_MAX"
  shows "uint64_of_int (accumulateWeights xs) = totalWeightOf xs"
proof -
  have "accumulateWeights xs = int (totalWeightOf xs)"
    unfolding accumulateWeights_def using fold_accumulate_small [of 0 xs] assms by simp
  moreover have "totalWeightOf xs < 2 ^ 64" using assms by (simp add: INT_MAX_def)
  ultimately show ?thesis by (simp add: uint64_of_int_nat)
qed

lemma foldl_max_props:
  "foldl (\<lambda>largest n. if weight largest < weight n then n else largest) x xs \<in> set (x # xs) \<and>
   (\<forall>y \<in> set (x # xs). weight y \<le> weight (foldl (\<lambda>largest n. if weight largest < weight n then n else largest) x xs)) \<and>
   ((\<forall>y \<in> set xs. weight y \<le> weight x) \<longrightarrow>
      foldl (\<lambda>largest n. if weight largest < weight n then n else largest) x xs = x)"
proof (induction xs arbitrary: x)
  case Nil
  then show ?case by simp
next
  case (Cons a xs)
  show ?case
    using Cons.IH [of a] Cons.IH [of x] by (auto simp: le_less_trans dest: order_trans)
qed

lemma max_element_Some:
  assumes "xs \<noteq> []"
  obtains m where "max_element xs = Some m" "m \<in> set xs" "\<forall>y \<in> set xs. weight y \<le> weight m"
    "(\<forall>y \<in> set xs. weight y \<le> weight (hd xs)) \<longrightarrow> m = hd xs"
proof (cases xs)
  case Nil
  with assms show ?thesis by simp
next
  case (Cons x ys)
  show ?thesis
    using foldl_max_props [of x ys] that Cons by auto
qed

lemma replace_in_place:
  assumes "sorted_wrt (<) (map nhKey xs)" "m \<in> set xs" "nhKey m' = nhKey m"
  shows "map nhKey (insertNextHop m' (remove1 m xs)) = map nhKey xs \<and>
         totalWeightOf (insertNextHop m' (remove1 m xs)) + weight m = totalWeightOf xs + weight m' \<and>
         set (insertNextHop m' (remove1 m xs)) \<subseteq> insert m' (set xs)"
  using assms
proof (induction xs)
  case Nil
  then show ?case by simp
next
  case (Cons y ys)
  show ?case
  proof (cases "y = m")
    case True
    have "\<forall>z \<in> set ys. nhKey m' < nhKey z"
      using Cons.prems True by auto
    then have "insertNextHop m' ys = m' # ys"
      by (rule insertNextHop_first)
    then show ?thesis
      using True Cons.prems by (auto simp: totalWeightOf_def)
  next
    case False
    then have mem: "m \<in> set ys" using Cons.prems by auto
    then have lt: "nhKey y < nhKey m'" using Cons.prems by auto
    have srt: "sorted_wrt (<) (map nhKey ys)" using Cons.prems by simp
    have ins: "insertNextHop m' (y # remove1 m ys) = y # insertNextHop m' (remove1 m ys)"
      using lt by auto
    show ?thesis
      using Cons.IH [OF srt mem Cons.prems(3)] False ins
      by (auto simp: totalWeightOf_def)
  qed
qed

lemma total_ge_length:
  "\<forall>x \<in> set xs. 1 \<le> weight x \<Longrightarrow> length xs \<le> totalWeightOf xs"
  by (induction xs) (auto simp: totalWeightOf_def)

lemma total_eq_length:
  "\<forall>x \<in> set xs. 1 \<le> weight x \<Longrightarrow> totalWeightOf xs = length xs \<Longrightarrow>
   \<forall>x \<in> set xs. weight x = 1"
proof (induction xs)
  case Nil
  then show ?case by simp
next
  case (Cons y ys)
  have "length ys \<le> totalWeightOf ys"
    using Cons.prems(1) by (intro total_ge_length) simp
  moreover have "1 \<le> weight y" using Cons.prems(1) by simp
  moreover have "weight y + totalWeightOf ys = Suc (length ys)"
    using Cons.prems(2) by (simp add: totalWeightOf_def)
  ultimately have "weight y = 1" "totalWeightOf ys = length ys" by linarith+
  then show ?case using Cons by simp
qed

lemma total_all_one:
  "\<forall>x \<in> set xs. weight x = 1 \<Longrightarrow> totalWeightOf xs = length xs"
  by (induction xs) (auto simp: totalWeightOf_def)

lemma validSet_tl: "validSet xs \<Longrightarrow> validSet (tl xs)"
  by (cases xs) (auto simp: validSet_def)

lemma decrementMax_step:
  assumes v: "validSet xs" and w: "\<forall>x \<in> set xs. 1 \<le> weight x" and ne: "xs \<noteq> []"
  obtains ys where "decrementMax (Suc i) xs = decrementMax i ys" "validSet ys"
    "\<forall>y \<in> set ys. 1 \<le> weight y" "totalWeightOf ys + 1 = totalWeightOf xs"
    "length xs < totalWeightOf xs \<longrightarrow> map nhKey ys = map nhKey xs"
    "totalWeightOf xs = length xs \<longrightarrow> ys = tl xs"
proof -
  obtain m where m: "max_element xs = Some m" "m \<in> set xs"
    "\<forall>y \<in> set xs. weight y \<le> weight m"
    "(\<forall>y \<in> set xs. weight y \<le> weight (hd xs)) \<longrightarrow> m = hd xs"
    using max_element_Some [OF ne] by blast
  have wm: "1 \<le> weight m" using w m(2) by simp
  show ?thesis
  proof (cases "weight m = 1")
    case True
    have all1: "\<forall>x \<in> set xs. weight x = 1"
      using w m(3) True by (metis le_antisym)
    have hd1: "weight (hd xs) = 1" using all1 ne by simp
    have "m = hd xs" using m(4) all1 hd1 by simp
    then have rm: "remove1 m xs = tl xs" using ne by (cases xs) auto
    have step: "decrementMax (Suc i) xs = decrementMax i (tl xs)"
      using m(1) True rm by (simp add: Let_def)
    have tot: "totalWeightOf (tl xs) + 1 = totalWeightOf xs"
      using ne hd1 by (cases xs) (auto simp: totalWeightOf_def)
    have len: "totalWeightOf xs = length xs" using all1 by (rule total_all_one)
    have wt: "\<forall>y \<in> set (tl xs). 1 \<le> weight y"
      using w ne by (cases xs) auto
    show ?thesis
      using that [OF step validSet_tl [OF v] wt tot] len by simp
  next
    case False
    define m' where "m' = ResolvedNextHop (addr m) (intf m) (weight m - 1)"
    have wm': "weight m' = weight m - 1" "0 < weight m'" "nhKey m' = nhKey m"
      using False wm by (auto simp: m'_def nhKey_def)
    define ys where "ys = insertNextHop m' (remove1 m xs)"
    have rp: "map nhKey ys = map nhKey xs"
      "totalWeightOf ys + weight m = totalWeightOf xs + weight m'"
      "set ys \<subseteq> insert m' (set xs)"
      using replace_in_place [OF _ m(2) wm'(3)] v by (simp_all add: validSet_def ys_def)
    have step: "decrementMax (Suc i) xs = decrementMax i ys"
      using m(1) wm'(2) by (simp add: Let_def ys_def m'_def)
    have vy: "validSet ys" using v rp(1) by (simp add: validSet_def)
    have wy: "\<forall>y \<in> set ys. 1 \<le> weight y"
      using rp(3) w wm'(2) by auto
    have tot: "totalWeightOf ys + 1 = totalWeightOf xs"
      using rp(2) wm'(1) wm False by linarith
    have nl: "totalWeightOf xs \<noteq> length xs"
      using total_eq_length [OF w] m(2) False by auto
    show ?thesis
      using that [OF step vy wy tot] rp(1) nl by simp
  qed
qed

lemma decrementMax_general:
  assumes "validSet xs" "\<forall>x \<in> set xs. 1 \<le> weight x" "k \<le> totalWeightOf xs"
  shows "\<exists>ys. decrementMax k xs = Some ys \<and> validSet ys \<and> (\<forall>y \<in> set ys. 1 \<le> weight y) \<and>
           totalWeightOf ys = totalWeightOf xs - k \<and>
           (k + length xs \<le> totalWeightOf xs \<longrightarrow> map nhKey ys = map nhKey xs) \<and>
           (totalWeightOf xs \<le> k + length xs \<longrightarrow>
              (\<forall>y \<in> set ys. weight y = 1) \<and>
              map nhKey ys = drop (k + length xs - totalWeightOf xs) (map nhKey xs))"
  using assms
proof (induction k arbitrary: xs)
  case 0
  have "totalWeightOf xs \<le> length xs \<longrightarrow> (\<forall>y \<in> set xs. weight y = 1)"
    using total_eq_length [OF "0.prems"(2)] total_ge_length [OF "0.prems"(2)] by auto
  moreover have "length xs \<le> totalWeightOf xs"
    by (rule total_ge_length [OF "0.prems"(2)])
  ultimately show ?case using 0 by auto
next
  case (Suc k)
  have ne: "xs \<noteq> []" using Suc.prems(3) by (auto simp: totalWeightOf_def)
  obtain ys1 where s: "decrementMax (Suc k) xs = decrementMax k ys1" "validSet ys1"
    "\<forall>y \<in> set ys1. 1 \<le> weight y" "totalWeightOf ys1 + 1 = totalWeightOf xs"
    "length xs < totalWeightOf xs \<longrightarrow> map nhKey ys1 = map nhKey xs"
    "totalWeightOf xs = length xs \<longrightarrow> ys1 = tl xs"
    using decrementMax_step [OF Suc.prems(1) Suc.prems(2) ne] by metis
  have k: "k \<le> totalWeightOf ys1" using s(4) Suc.prems(3) by linarith
  obtain ys where r: "decrementMax k ys1 = Some ys" "validSet ys" "\<forall>y \<in> set ys. 1 \<le> weight y"
    "totalWeightOf ys = totalWeightOf ys1 - k"
    "k + length ys1 \<le> totalWeightOf ys1 \<longrightarrow> map nhKey ys = map nhKey ys1"
    "totalWeightOf ys1 \<le> k + length ys1 \<longrightarrow>
       (\<forall>y \<in> set ys. weight y = 1) \<and>
       map nhKey ys = drop (k + length ys1 - totalWeightOf ys1) (map nhKey ys1)"
    using Suc.IH [OF s(2) s(3) k] by blast
  have ge: "length xs \<le> totalWeightOf xs" by (rule total_ge_length [OF Suc.prems(2)])
  show ?case
  proof (cases "length xs < totalWeightOf xs")
    case True
    then have keys: "map nhKey ys1 = map nhKey xs" using s(5) by simp
    then have len: "length ys1 = length xs" by (metis length_map)
    have d: "k + length ys1 - totalWeightOf ys1 = Suc k + length xs - totalWeightOf xs"
      using s(4) len by linarith
    show ?thesis
      using s(1) s(4) r keys len d by (intro exI [of _ ys]) auto
  next
    case False
    then have eq: "totalWeightOf xs = length xs" using ge by simp
    then have tl: "ys1 = tl xs" using s(6) by simp
    have len: "length ys1 = length xs - 1" using tl by simp
    have tot1: "totalWeightOf ys1 = length ys1" using s(4) eq len ne by (cases xs) auto
    have d: "map nhKey ys = drop (Suc k) (map nhKey xs)"
      using r(6) tot1 tl by (simp add: drop_Suc map_tl)
    show ?thesis
      using s(1) s(4) r(1-4) r(6) tot1 eq d by (intro exI [of _ ys]) auto
  qed
qed

lemma member_le_total: "nh \<in> set xs \<Longrightarrow> weight nh \<le> totalWeightOf xs"
  by (induction xs) (auto simp: totalWeightOf_def)

lemma total_scaled_le:
  assumes "W < T" "T \<le> 2 ^ 51" "\<forall>nh \<in> set xs. 1 \<le> weight nh \<and> weight nh \<le> T"
  shows "totalWeightOf (map (scaled (scaleFactor W T)) xs) \<le> totalWeightOf xs"
  using assms(3)
proof (induction xs)
  case Nil
  then show ?case by simp
next
  case (Cons x xs)
  have "weight (scaled (scaleFactor W T) x) \<le> weight x"
    using Cons.prems by (simp add: scaled_def scaledWeight_le [OF assms(1,2)])
  moreover have "totalWeightOf (map (scaled (scaleFactor W T)) xs) \<le> totalWeightOf xs"
    using Cons by simp
  ultimately show ?case by (simp add: totalWeightOf_def)
qed

text \<open>
  While the weights, after weight 0 has become weight 1, add up to at most \<open>INT_MAX\<close>,
  the \<open>int\<close> accumulator holds their sum, the scaled weights add up to no more and the
  number of rounds fits the \<open>int\<close> counter.
\<close>

lemma normalizeNextHops_unfold:
  assumes "validSet S" "totalWeightOf (map coerced S) \<le> INT_MAX"
  shows "normalizeNextHops W S =
    (let N = map coerced S; T = totalWeightOf N in
     if T > W then
       (let Sc = map (scaled (scaleFactor W T)) N in
        if totalWeightOf Sc > W then decrementMax (totalWeightOf Sc - W) Sc else Some Sc)
     else Some N)"
proof -
  define N where "N = map coerced S"
  define T where "T = totalWeightOf N"
  define Sc where "Sc = map (scaled (scaleFactor W T)) N"
  have vN: "validSet N"
    using assms(1) by (simp add: validSet_def comp_def N_def)
  have TI: "T \<le> INT_MAX" using assms(2) by (simp add: T_def N_def)
  have acc: "uint64_of_int (accumulateWeights N) = T"
    using accumulateWeights_small [of N] TI by (simp add: T_def)
  have gen: "normalizeNextHops W S =
    (if T > W then
       (if totalWeightOf Sc mod 2 ^ 64 > W
        then (if totalWeightOf Sc mod 2 ^ 64 - W > INT_MAX then None
              else decrementMax (totalWeightOf Sc mod 2 ^ 64 - W) Sc)
        else Some Sc)
     else Some N)"
    unfolding normalizeNextHops_def Let_def coerceNextHops_map [OF assms(1)]
      N_def [symmetric] acc scaleNextHops_map [OF vN] Sc_def [symmetric]
    by simp
  show ?thesis
  proof (cases "T > W")
    case False
    then show ?thesis
      using gen by (simp add: Let_def N_def [symmetric] T_def [symmetric])
  next
    case True
    have T51: "T \<le> 2 ^ 51" using TI by (simp add: INT_MAX_def)
    have wN: "\<forall>nh \<in> set N. 1 \<le> weight nh \<and> weight nh \<le> T"
      using member_le_total [of _ N] by (auto simp: N_def coerced_def T_def)
    have "totalWeightOf Sc \<le> T"
      unfolding Sc_def using total_scaled_le [OF True T51 wN] by (simp add: T_def)
    then have le: "totalWeightOf Sc \<le> INT_MAX" using TI by simp
    then have m: "totalWeightOf Sc mod 2 ^ 64 = totalWeightOf Sc"
      by (simp add: INT_MAX_def)
    have "\<not> totalWeightOf Sc - W > INT_MAX" using le by simp
    then show ?thesis
      using gen True m
      by (simp add: Let_def N_def [symmetric] T_def [symmetric] Sc_def [symmetric])
  qed
qed

lemma normalizeNextHops_summary:
  assumes "validSet S" "totalWeightOf (map coerced S) \<le> INT_MAX"
  shows "\<exists>R. normalizeNextHops W S = Some R \<and> validSet R \<and> (\<forall>nh \<in> set R. 1 \<le> weight nh) \<and>
           totalWeightOf R \<le> W \<and>
           (length S \<le> W \<longrightarrow> map nhKey R = map nhKey S) \<and>
           (W < length S \<longrightarrow> (\<forall>nh \<in> set R. weight nh = 1) \<and>
              map nhKey R = drop (length S - W) (map nhKey S))"
proof -
  define N where "N = map coerced S"
  define T where "T = totalWeightOf N"
  define Sc where "Sc = map (scaled (scaleFactor W T)) N"
  have vN: "validSet N" "map nhKey N = map nhKey S" "length N = length S"
    using assms(1) by (simp_all add: validSet_def comp_def N_def)
  have wN: "\<forall>nh \<in> set N. 1 \<le> weight nh"
    by (auto simp: N_def coerced_def)
  have vSc: "validSet Sc" "map nhKey Sc = map nhKey S" "length Sc = length S"
    using vN by (simp_all add: validSet_def comp_def Sc_def)
  have wSc: "\<forall>nh \<in> set Sc. 1 \<le> weight nh"
    by (auto simp: Sc_def scaled_def scaledWeight_def)
  have lN: "length S \<le> T"
    using total_ge_length [OF wN] vN(3) by (simp add: T_def)
  have lSc: "length S \<le> totalWeightOf Sc"
    using total_ge_length [OF wSc] vSc(3) by simp
  have unf: "normalizeNextHops W S =
     (if T > W then
        (if totalWeightOf Sc > W then decrementMax (totalWeightOf Sc - W) Sc else Some Sc)
      else Some N)"
    unfolding normalizeNextHops_unfold [OF assms] by (simp add: Let_def N_def T_def Sc_def)
  show ?thesis
  proof (cases "T > W")
    case False
    then show ?thesis
      using unf vN wN lN by (intro exI [of _ N]) (auto simp: T_def)
  next
    case True
    show ?thesis
    proof (cases "totalWeightOf Sc > W")
      case False
      then show ?thesis
        using unf True vSc wSc lSc by (intro exI [of _ Sc]) auto
    next
      case over: True
      have k: "totalWeightOf Sc - W \<le> totalWeightOf Sc" by simp
      obtain R where r: "decrementMax (totalWeightOf Sc - W) Sc = Some R" "validSet R"
        "\<forall>y \<in> set R. 1 \<le> weight y"
        "totalWeightOf R = totalWeightOf Sc - (totalWeightOf Sc - W)"
        "totalWeightOf Sc - W + length Sc \<le> totalWeightOf Sc \<longrightarrow> map nhKey R = map nhKey Sc"
        "totalWeightOf Sc \<le> totalWeightOf Sc - W + length Sc \<longrightarrow>
           (\<forall>y \<in> set R. weight y = 1) \<and>
           map nhKey R = drop (totalWeightOf Sc - W + length Sc - totalWeightOf Sc) (map nhKey Sc)"
        using decrementMax_general [OF vSc(1) wSc k] by blast
      have tot: "totalWeightOf R = W" using r(4) over by simp
      have a: "length S \<le> W \<longrightarrow> map nhKey R = map nhKey S"
        using r(5) vSc(2,3) over by auto
      have d: "totalWeightOf Sc - W + length Sc - totalWeightOf Sc = length S - W"
        using over vSc(3) by simp
      have b: "W < length S \<longrightarrow> (\<forall>nh \<in> set R. weight nh = 1) \<and>
              map nhKey R = drop (length S - W) (map nhKey S)"
        using r(6) vSc(2,3) over d by auto
      show ?thesis
        using unf True over r(1-3) tot a b by (intro exI [of _ R]) simp
    qed
  qed
qed

lemma normalizeNextHops_fixed:
  assumes "validSet R" "\<forall>nh \<in> set R. 1 \<le> weight nh" "totalWeightOf R \<le> W"
    "totalWeightOf R \<le> INT_MAX"
  shows "normalizeNextHops W R = Some R"
proof -
  have "coerced nh = nh" if "nh \<in> set R" for nh
  proof -
    have "max (weight nh) 1 = weight nh" using assms(2) that by (intro max.absorb1) simp
    then show ?thesis by (simp add: coerced_def)
  qed
  then have c: "map coerced R = R"
    by (intro map_idI)
  have b: "totalWeightOf (map coerced R) \<le> INT_MAX" using assms(4) c by simp
  show ?thesis
    using assms(3) c by (simp add: normalizeNextHops_unfold [OF assms(1) b] Let_def)
qed

section \<open>Claims about normalization\<close>

lemma addrKey_inj: "addrKey a = addrKey b \<Longrightarrow> a = b"
  by (cases a; cases b) auto

lemma nhKey_eq_iff: "nhKey a = nhKey b \<longleftrightarrow> nhIdentity a = nhIdentity b"
  by (auto simp: nhKey_def nhIdentity_def dest: addrKey_inj)

lemma map_nhKey_eq_iff: "map nhKey R = map nhKey S \<longleftrightarrow> map nhIdentity R = map nhIdentity S"
proof (induction R arbitrary: S)
  case Nil
  then show ?case by simp
next
  case (Cons r R)
  then show ?case by (cases S) (auto simp: nhKey_eq_iff)
qed

lemma validSet_scenario3: "validSet scenario3"
  by (simp add: validSet_def scenario3_def nhKey_def)

lemma scaledWeight_scenario3:
  "scaledWeight (scaleFactor 64 101) 100 = 63"
  "scaledWeight (scaleFactor 64 101) 1 = 1"
  "scaledWeight (scaleFactor 64 101) (Suc 0) = Suc 0"
  by code_simp+

lemma normalize_scenario3:
  "normalizeNextHops 64 scenario3 =
     Some [ResolvedNextHop (IPAddressV4 1) 1 63, ResolvedNextHop (IPAddressV4 2) 1 1]"
proof -
  have b: "totalWeightOf (map coerced scenario3) \<le> INT_MAX"
    by (simp add: scenario3_def coerced_def totalWeightOf_def INT_MAX_def)
  show ?thesis
    unfolding normalizeNextHops_unfold [OF validSet_scenario3 b]
    by (simp add: Let_def scenario3_def coerced_def totalWeightOf_def scaled_def
        scaledWeight_scenario3)
qed

lemma validSet_heavyHops: "validSet (heavyHops w)"
  by (simp add: validSet_def heavyHops_def nhKey_def)

lemma coerced_heavyHops: "0 < w \<Longrightarrow> map coerced (heavyHops w) = heavyHops w"
  by (simp add: heavyHops_def coerced_def)

lemma coerce_heavyHops: "0 < w \<Longrightarrow> coerceNextHops (heavyHops w) = heavyHops w"
  by (simp add: coerceNextHops_map [OF validSet_heavyHops] coerced_heavyHops)

lemma accumulate_heavyHops:
  "w < 2 ^ 31 \<Longrightarrow> accumulateWeights (heavyHops (w + 2)) = int w"
  by (simp add: accumulateWeights_def heavyHops_def uint64_of_int_def int_of_uint64_def Let_def
      nat_add_distrib)

lemma floor_heavy_65:
  "\<lfloor>to_double (to_double 2147483647 * to_double (64 / to_double 65))\<rfloor> = (2114445437 :: int)"
  by code_simp

lemma floor_67_65:
  "\<lfloor>to_double (to_double 67 * to_double (64 / to_double 65))\<rfloor> = (65 :: int)"
  by code_simp



lemma scaledWeight_65:
  "scaledWeight (scaleFactor 64 65) 2147483647 = 2114445437"
  "scaledWeight (scaleFactor 64 65) 67 = 65"
  by (simp_all add: scaledWeight_def scaleFactor_def floor_heavy_65 floor_67_65)


lemma scale_wrapTo65:
  "scaleNextHops (scaleFactor 64 65) wrapTo65 =
     ([ResolvedNextHop (IPAddressV4 1) 1 2114445437, ResolvedNextHop (IPAddressV4 2) 1 2114445437,
       ResolvedNextHop (IPAddressV4 3) 1 65], 4228890939)"
  unfolding wrapTo65_def scaleNextHops_map [OF validSet_heavyHops]
  by (simp add: heavyHops_def scaled_def totalWeightOf_def scaledWeight_65)


lemma acc_wrapToZero: "accumulateWeights wrapToZero = 0"
  by (simp add: wrapToZero_def accumulateWeights_def heavyHops_def uint64_of_int_def
      int_of_uint64_def Let_def)

lemma acc_wrapTo65: "accumulateWeights wrapTo65 = 65"
  using accumulate_heavyHops [of 65] by (simp add: wrapTo65_def)


lemma normalize_wrapToZero: "normalizeNextHops 64 wrapToZero = Some wrapToZero"
  using coerce_heavyHops [of 2]
  by (simp add: normalizeNextHops_def wrapToZero_def [symmetric] acc_wrapToZero uint64_of_int_def)

lemma normalize_wrapTo65: "normalizeNextHops 64 wrapTo65 = None"
  using coerce_heavyHops [of 67]
  by (simp add: normalizeNextHops_def wrapTo65_def [symmetric] acc_wrapTo65 uint64_of_int_def
      scale_wrapTo65 INT_MAX_def)


text \<open>
  Within the range of the \<open>int\<close> accumulator the three properties of normalization hold:
  for every set whose weights (0 counted as 1) add up to at most \<open>INT_MAX\<close>, the result
  exists, has total weight at most the width and weights of at least 1, is returned
  unchanged by a second pass, and has the next hops of the input when these are no more
  than the width.
\<close>

lemma normalize_weight_bound_in_range:
  assumes "validSet S" "totalWeightOf (map coerced S) \<le> INT_MAX"
  shows "\<exists>R. normalizeNextHops W S = Some R \<and> totalWeightOf R \<le> W \<and>
             (\<forall>nh \<in> set R. 1 \<le> weight nh)"
  using normalizeNextHops_summary [OF assms, of W] by blast

lemma normalize_idempotent_in_range:
  assumes "validSet S" "totalWeightOf (map coerced S) \<le> INT_MAX"
  shows "\<exists>R. normalizeNextHops W S = Some R \<and> normalizeNextHops W R = Some R"
proof -
  obtain R where r: "normalizeNextHops W S = Some R" "validSet R"
    "\<forall>nh \<in> set R. 1 \<le> weight nh" "totalWeightOf R \<le> W"
    using normalizeNextHops_summary [OF assms, of W] by blast
  have "totalWeightOf R \<le> INT_MAX"
  proof (cases "totalWeightOf (map coerced S) > W")
    case True
    then show ?thesis using r(4) assms(2) by simp
  next
    case False
    then have "normalizeNextHops W S = Some (map coerced S)"
      by (simp add: normalizeNextHops_unfold [OF assms] Let_def)
    then show ?thesis using r(1) assms(2) by simp
  qed
  then show ?thesis
    using r(1) normalizeNextHops_fixed [OF r(2) r(3) r(4)] by simp
qed

lemma normalize_membership_in_range:
  assumes "validSet S" "totalWeightOf (map coerced S) \<le> INT_MAX" "length S \<le> W"
  shows "\<exists>R. normalizeNextHops W S = Some R \<and> map nhIdentity R = map nhIdentity S"
  using normalizeNextHops_summary [OF assms(1,2), of W] assms(3)
  by (auto simp: map_nhKey_eq_iff)

text \<open>
  Claim C3 (weight bound: for every set \<open>S\<close> and width \<open>W \<ge> 1\<close> with \<open>|S| \<le> W\<close> the
  result has total weight at most \<open>W\<close> and weights of at least 1) does not hold of the
  code. For three next hops of weights 2147483647, 2147483647 and 2 and width 64, the
  \<open>int\<close> accumulator of the total weight goes from 2147483647 to -2 and then to 0; as 0
  is not greater than 64 the set is returned as it is, with the total weight \<open>2\<^sup>3\<^sup>2\<close>.
\<close>

theorem normalize_weight_bound_int_accumulator:
  "validSet wrapToZero \<and> length wrapToZero \<le> 64 \<and>
   coerceNextHops wrapToZero = wrapToZero \<and>
   accumulateWeights wrapToZero = 0 \<and>
   normalizeNextHops 64 wrapToZero = Some wrapToZero \<and>
   totalWeightOf wrapToZero = 4294967296 \<and>
   \<not> totalWeightOf wrapToZero \<le> 64"
proof -
  have 1: "coerceNextHops wrapToZero = wrapToZero"
    using coerce_heavyHops [of 2] by (simp add: wrapToZero_def)
  have 4: "totalWeightOf wrapToZero = 4294967296"
    by (simp add: wrapToZero_def heavyHops_def totalWeightOf_def)
  have 5: "length wrapToZero \<le> 64" by (simp add: wrapToZero_def heavyHops_def)
  show ?thesis
    using validSet_heavyHops [of 2] 1 acc_wrapToZero normalize_wrapToZero 4 5
    by (simp add: wrapToZero_def)
qed

text \<open>
  Claim C4 (idempotence: for every set \<open>S\<close> and width \<open>W\<close>, normalizing the result of
  a normalization returns it unchanged) does not hold of the code. For three next hops of
  weights 2147483647, 2147483647 and 67 and width 64, the \<open>int\<close> accumulator ends at
  65; the scale factor is taken for the total 65, the scaled weights add up to
  4228890939, and the loop of step 2c is to run 4228890875 rounds, more than its \<open>int\<close>
  counter can count: the first normalization has no defined result.
\<close>

theorem normalize_idempotent_int_counter:
  "validSet wrapTo65 \<and> coerceNextHops wrapTo65 = wrapTo65 \<and>
   uint64_of_int (accumulateWeights wrapTo65) = 65 \<and>
   snd (scaleNextHops (scaleFactor 64 65) wrapTo65) = 4228890939 \<and>
   INT_MAX < 4228890939 - 64 \<and>
   normalizeNextHops 64 wrapTo65 = None"
proof -
  have 1: "coerceNextHops wrapTo65 = wrapTo65"
    using coerce_heavyHops [of 67] by (simp add: wrapTo65_def)
  have 2: "uint64_of_int (accumulateWeights wrapTo65) = 65"
    by (simp add: acc_wrapTo65 uint64_of_int_def)
  have 3: "snd (scaleNextHops (scaleFactor 64 65) wrapTo65) = 4228890939"
    by (simp add: scale_wrapTo65)
  have 5: "INT_MAX < 4228890939 - 64" by (simp add: INT_MAX_def)
  show ?thesis
    using validSet_heavyHops [of 67] 1 2 3 5 normalize_wrapTo65 by (simp add: wrapTo65_def)
qed


section \<open>Effects of program\<close>

lemma calls_logCall [simp]: "calls (logCall c hw) = calls hw @ [c]"
  by (simp add: logCall_def)

lemma ecmpRefBalance_append:
  "ecmpRefBalance (cs @ ds) k = ecmpRefBalance cs k + ecmpRefBalance ds k"
  by (simp add: ecmpRefBalance_def)

lemma hostRefBalance_append:
  "hostRefBalance (cs @ ds) k = hostRefBalance cs k + hostRefBalance ds k"
  by (simp add: hostRefBalance_def)

lemma programHostRoute_calls:
  "\<exists>cs. calls (snd (programHostRoute ok r e fwd rep hw)) = calls hw @ cs \<and>
        (\<forall>k. ecmpRefBalance cs k = 0) \<and>
        (\<forall>h. hostRefBalance cs h = (if ok \<and> h = (m_vrf r, m_prefix r) then 1 else 0)) \<and>
        (fst (programHostRoute ok r e fwd rep hw) = (if ok then None else Some BcmError))"
  by (auto simp: programHostRoute_def addToBcmHostTable_def incRefOrCreateBcmHost_def
      derefBcmHost_def setEgressId_def Let_def ecmpRefBalance_def hostRefBalance_def)

lemma programLpmRoute_calls:
  "\<exists>cs. calls (snd (programLpmRoute ok r e fwd hw)) = calls hw @ cs \<and>
        (\<forall>k. ecmpRefBalance cs k = 0) \<and> (\<forall>h. hostRefBalance cs h = 0) \<and>
        (fst (programLpmRoute ok r e fwd hw) = None \<or> fst (programLpmRoute ok r e fwd hw) = Some BcmError)"
  by (auto simp: programLpmRoute_def opennsl_l3_route_add_def programmedRoute_def
      Let_def ecmpRefBalance_def hostRefBalance_def split: option.splits prod.splits)

lemma programViaHostTable_calls:
  "\<exists>cs. calls (snd (programViaHostTable pf ok r e fwd hw)) = calls hw @ cs \<and>
        (\<forall>k. ecmpRefBalance cs k = 0) \<and>
        (fst (programViaHostTable pf ok r e fwd hw) = Some BcmError \<longrightarrow>
           (\<forall>h. hostRefBalance cs h = (if m_added r \<and> h = (m_vrf r, m_prefix r) then - 1 else 0))) \<and>
        fst (programViaHostTable pf ok r e fwd hw) \<in> {None, Some BcmError, Some CheckFailure}"
proof (cases "m_added r \<and> hostTable hw (m_vrf r, m_prefix r) = None")
  case True
  then show ?thesis
    by (simp add: programViaHostTable_def ecmpRefBalance_def)
next
  case False
  define hw1 where "hw1 = (if m_added r then derefBcmHost (m_vrf r, m_prefix r) hw else hw)"
  define ex where "ex = (vrfAndIP2Route hw1 (m_vrf r, m_prefix r) \<noteq> None)"
  obtain cs where cs: "calls (snd (programHostRoute ok r e fwd ex hw1)) = calls hw1 @ cs"
    "\<forall>k. ecmpRefBalance cs k = 0"
    "\<forall>h. hostRefBalance cs h = (if ok \<and> h = (m_vrf r, m_prefix r) then 1 else 0)"
    "fst (programHostRoute ok r e fwd ex hw1) = (if ok then None else Some BcmError)"
    using programHostRoute_calls by blast
  have c1: "calls hw1 = calls hw @ (if m_added r then [DerefBcmHost (m_vrf r, m_prefix r)] else [])"
    by (simp add: hw1_def derefBcmHost_def)
  obtain e2 hw2 where p: "programHostRoute ok r e fwd ex hw1 = (e2, hw2)"
    by (cases "programHostRoute ok r e fwd ex hw1")
  have unf: "programViaHostTable pf ok r e fwd hw =
     (case (e2, hw2) of
        (Some e, hw2) \<Rightarrow> (Some e, hw2)
      | (None, hw2) \<Rightarrow>
          if ex then
            (if dchecks pf then
               (case deleteLpmRoute (m_vrf r) (m_prefix r) (m_len r) hw2 of
                  (True, hw3) \<Rightarrow> (Some CheckFailure, hw3)
                | (False, hw3) \<Rightarrow> (None, programmedHostRoute (m_vrf r, m_prefix r) hw3))
             else (None, programmedHostRoute (m_vrf r, m_prefix r) hw2))
          else (None, hw2))"
    unfolding programViaHostTable_def Let_def hw1_def [symmetric] ex_def [symmetric]
    using False p by auto
  show ?thesis
  proof (cases ok)
    case False
    then have "e2 = Some BcmError" using cs(4) p by simp
    then have "programViaHostTable pf ok r e fwd hw = (Some BcmError, hw2)"
      using unf by simp
    then show ?thesis
      using cs(1-3) p c1 False
      by (auto simp: ecmpRefBalance_append hostRefBalance_append ecmpRefBalance_def
          hostRefBalance_def)
  next
    case True
    then have e2: "e2 = None" using cs(4) p by simp
    have "\<exists>ds. calls (snd (programViaHostTable pf ok r e fwd hw)) = calls hw2 @ ds \<and>
            (\<forall>k. ecmpRefBalance ds k = 0) \<and>
            fst (programViaHostTable pf ok r e fwd hw) \<in> {None, Some CheckFailure}"
      unfolding unf e2
      by (auto simp: deleteLpmRoute_def opennsl_l3_route_delete_def programmedHostRoute_def
          Let_def ecmpRefBalance_def split: option.splits prod.splits bool.splits)
    then obtain ds where ds: "calls (snd (programViaHostTable pf ok r e fwd hw)) = calls hw2 @ ds"
      "\<forall>k. ecmpRefBalance ds k = 0"
      "fst (programViaHostTable pf ok r e fwd hw) \<in> {None, Some CheckFailure}"
      by blast
    have "calls (snd (programViaHostTable pf ok r e fwd hw)) =
          calls hw @ ((if m_added r then [DerefBcmHost (m_vrf r, m_prefix r)] else []) @ cs @ ds)"
      using ds(1) cs(1) p c1 by simp
    moreover have "\<forall>k. ecmpRefBalance ((if m_added r then [DerefBcmHost (m_vrf r, m_prefix r)] else []) @ cs @ ds) k = 0"
      using cs(2) ds(2) by (simp add: ecmpRefBalance_append) (simp add: ecmpRefBalance_def)
    ultimately show ?thesis
      using ds(3) by (intro exI [of _ "(if m_added r then [DerefBcmHost (m_vrf r, m_prefix r)] else []) @ cs @ ds"]) auto
  qed
qed

lemma nhops_nonempty_action: "getNextHopSet f \<noteq> [] \<Longrightarrow> getAction f = NEXTHOPS"
  by (cases f) auto

lemma branch_calls:
  "\<exists>cs. calls (snd (if canUseHostTable pf r then programViaHostTable pf ok r e fwd hw
                      else programLpmRoute ok r e fwd hw)) = calls hw @ cs \<and>
        (\<forall>k. ecmpRefBalance cs k = 0) \<and>
        (fst (if canUseHostTable pf r then programViaHostTable pf ok r e fwd hw
              else programLpmRoute ok r e fwd hw) = Some BcmError \<longrightarrow>
           (\<forall>h. hostRefBalance cs h \<le> 0)) \<and>
        fst (if canUseHostTable pf r then programViaHostTable pf ok r e fwd hw
              else programLpmRoute ok r e fwd hw) \<in> {None, Some BcmError, Some CheckFailure}"
proof (cases "canUseHostTable pf r")
  case True
  show ?thesis
    using programViaHostTable_calls [of pf ok r e fwd hw] True by auto
next
  case False
  show ?thesis
    using programLpmRoute_calls [of ok r e fwd hw] False by auto
qed

lemma program_effect:
  assumes "program pf ok fwd (r, hw) = (e, r', hw')"
  shows "\<exists>cs. calls hw' = calls hw @ cs \<and>
     (e = Some BcmError \<longrightarrow>
        r' = r \<and> (\<forall>k. ecmpRefBalance cs k = 0) \<and> (\<forall>h. hostRefBalance cs h \<le> 0)) \<and>
     (e = None \<longrightarrow> wfRoute r \<longrightarrow>
        wfRoute r' \<and>
        (\<forall>k. ecmpRefBalance cs k = of_bool (pointsAt k r') - of_bool (pointsAt k r)))"
proof (cases "m_added r \<and> fwd = m_fwd r")
  case True
  then have "e = None" "r' = r" "hw' = hw" using assms by (simp_all add: program_def)
  then show ?thesis by (simp add: ecmpRefBalance_def)
next
  case noop: False
  show ?thesis
  proof (cases "resolveEgress pf r fwd hw")
    case (Inl err)
    then have "err = CheckFailure"
      by (auto simp: resolveEgress_def Let_def split: if_splits)
    then have "e = Some CheckFailure" "hw' = hw"
      using assms noop Inl by (auto simp: program_def)
    then show ?thesis by simp
  next
    case (Inr p)
    obtain egressId hw1 where p: "p = (egressId, hw1)" by (cases p)
    define inc where "inc = (if getAction fwd = NEXTHOPS
       then [IncRefOrCreateBcmEcmpHost (m_vrf r, getNextHopSet fwd)] else [])"
    have c1: "calls hw1 = calls hw @ inc"
      using Inr p by (cases fwd) (auto simp: resolveEgress_def Let_def inc_def
          incRefOrCreateBcmEcmpHost_def split: if_splits)
    have ne: "getAction fwd = NEXTHOPS \<longleftrightarrow> getNextHopSet fwd \<noteq> []"
      using Inr p by (cases fwd) (auto simp: resolveEgress_def Let_def split: if_splits)
    define br where "br = (if canUseHostTable pf r then programViaHostTable pf ok r egressId fwd hw1
                      else programLpmRoute ok r egressId fwd hw1)"
    obtain cs where cs: "calls (snd br) = calls hw1 @ cs" "\<forall>k. ecmpRefBalance cs k = 0"
      "fst br = Some BcmError \<longrightarrow> (\<forall>h. hostRefBalance cs h \<le> 0)"
      "fst br \<in> {None, Some BcmError, Some CheckFailure}"
      unfolding br_def using branch_calls by blast
    obtain e2 hw2 where b: "br = (e2, hw2)" by (cases br)
    have pd: "program pf ok fwd (r, hw) =
        (case br of
           (Some e, hw2) \<Rightarrow>
             (Some e, r,
              if e = CheckFailure then hw2 else cleanupHost (m_vrf r) (getNextHopSet fwd) hw2)
         | (None, hw2) \<Rightarrow>
             (None, r\<lparr>m_egressId := egressId, m_fwd := fwd, m_added := True\<rparr>,
              if m_added r then cleanupHost (m_vrf r) (getNextHopSet (m_fwd r)) hw2 else hw2))"
      using noop Inr p by (auto simp: program_def br_def split: prod.splits option.splits)
    have unf: "(e, r', hw') =
        (case e2 of
           Some e \<Rightarrow>
             (Some e, r,
              if e = CheckFailure then hw2 else cleanupHost (m_vrf r) (getNextHopSet fwd) hw2)
         | None \<Rightarrow>
             (None, r\<lparr>m_egressId := egressId, m_fwd := fwd, m_added := True\<rparr>,
              if m_added r then cleanupHost (m_vrf r) (getNextHopSet (m_fwd r)) hw2 else hw2))"
      using assms pd b by (simp split: option.splits)
    show ?thesis
    proof (cases e2)
      case None
      define new where "new = r\<lparr>m_egressId := egressId, m_fwd := fwd, m_added := True\<rparr>"
      define dec where "dec = (if m_added r \<and> getNextHopSet (m_fwd r) \<noteq> []
         then [DerefBcmEcmpHost (m_vrf r, getNextHopSet (m_fwd r))] else [])"
      have r: "e = None" "r' = new"
        "hw' = (if m_added r then cleanupHost (m_vrf r) (getNextHopSet (m_fwd r)) hw2 else hw2)"
        using unf None by (simp_all add: new_def)
      have c3: "calls hw' = calls hw @ (inc @ cs @ dec)"
        using r(3) cs(1) b c1 by (simp add: cleanupHost_def derefBcmEcmpHost_def dec_def)
      have wf: "wfRoute new"
        using ne by (simp add: wfRoute_def new_def)
      have bal: "ecmpRefBalance (inc @ cs @ dec) k = of_bool (pointsAt k new) - of_bool (pointsAt k r)"
        if "wfRoute r" for k
      proof -
        have i: "ecmpRefBalance inc k = of_bool (pointsAt k new)"
          by (cases k) (auto simp: inc_def ecmpRefBalance_def pointsAt_def new_def)
        have d: "ecmpRefBalance dec k = - of_bool (pointsAt k r)"
          using that nhops_nonempty_action [of "m_fwd r"]
          by (cases k) (auto simp: dec_def ecmpRefBalance_def pointsAt_def wfRoute_def)
        show ?thesis
          using i d spec [OF cs(2), of k] by (simp add: ecmpRefBalance_append)
      qed
      show ?thesis
        using c3 r(1,2) wf bal by (intro exI [of _ "inc @ cs @ dec"]) simp
    next
      case (Some err)
      show ?thesis
      proof (cases "err = CheckFailure")
        case True
        then have "e = Some CheckFailure" "hw' = hw2" using unf Some by simp_all
        then show ?thesis using cs(1) b c1 by simp
      next
        case False
        then have err: "err = BcmError" using cs(4) b Some by simp
        define dec where "dec = (if getNextHopSet fwd \<noteq> []
           then [DerefBcmEcmpHost (m_vrf r, getNextHopSet fwd)] else [])"
        have r: "e = Some BcmError" "r' = r" "hw' = cleanupHost (m_vrf r) (getNextHopSet fwd) hw2"
          using unf Some err by simp_all
        have c3: "calls hw' = calls hw @ (inc @ cs @ dec)"
          using r(3) cs(1) b c1 by (simp add: cleanupHost_def derefBcmEcmpHost_def dec_def)
        have hb: "\<forall>h. hostRefBalance cs h \<le> 0" using cs(3) b Some err by simp
        have bal: "ecmpRefBalance (inc @ cs @ dec) k = 0" for k
        proof -
          have "ecmpRefBalance inc k + ecmpRefBalance dec k = 0"
            using ne by (auto simp: inc_def dec_def ecmpRefBalance_def)
          then show ?thesis
            using spec [OF cs(2), of k] by (simp add: ecmpRefBalance_append)
        qed
        have hbal: "hostRefBalance (inc @ cs @ dec) h \<le> 0" for h
        proof -
          have "hostRefBalance inc h = 0" "hostRefBalance dec h = 0"
            by (auto simp: inc_def dec_def hostRefBalance_def)
          then show ?thesis
            using spec [OF hb, of h] by (simp add: hostRefBalance_append)
        qed
        show ?thesis
          using c3 r(1,2) bal hbal by (intro exI [of _ "inc @ cs @ dec"]) simp
      qed
    qed
  qed
qed

lemmas program_defs =
  program_def resolveEgress_def canUseHostTable_def isHostRoute_def programViaHostTable_def
  programHostRoute_def programLpmRoute_def addToBcmHostTable_def incRefOrCreateBcmHost_def
  derefBcmHost_def setEgressId_def logCall_def cleanupHost_def derefBcmEcmpHost_def
  incRefOrCreateBcmEcmpHost_def opennsl_l3_route_add_def opennsl_l3_route_delete_def
  deleteLpmRoute_def programmedHostRoute_def programmedRoute_def initL3RouteT_def
  initL3RouteFromArgs_def equivalent_def lpmKeyOf_def hostPrefixLength_def Let_def

lemmas example_defs =
  examplePlatform_def narrowPlatform_def nextHopA_def nextHopB_def emptySwitch_def
  programmedHostRouteEntry_def switchWithHost_def

lemma program_success_state:
  assumes "program pf ok fwd (r, hw) = (None, r', hw')"
  shows "m_added r' \<and> m_fwd r' = fwd \<and> m_vrf r' = m_vrf r \<and> m_prefix r' = m_prefix r \<and>
         m_len r' = m_len r"
  using assms
  by (auto simp: program_def split: if_splits sum.splits prod.splits option.splits)

text \<open>
  In the host-table branch a route that is programmed already releases its host object
  before the new one is written. When that write fails the reference acquired for the new
  host object is released as well, and nothing acquires the old one again: the route is
  still marked as added, but the host table has no host object for its prefix any more.
\<close>

lemma program_failure_host_object_example:
  "hostTable switchWithHost (0, IPAddressV4 10) \<noteq> None \<and>
   m_added (fst (snd (program examplePlatform False (NextHopsEntry [nextHopA] 0)
     (programmedHostRouteEntry, switchWithHost)))) \<and>
   hostTable (snd (snd (program examplePlatform False (NextHopsEntry [nextHopA] 0)
     (programmedHostRouteEntry, switchWithHost)))) (0, IPAddressV4 10) = None"
  by (simp add: program_defs example_defs)

text \<open>The calls of a \<open>program\<close> that ends in a \<open>BcmError\<close>: each acquired reference is
  released later in the call, and the reference on the host object that a programmed host
  route held before the call has been released too.\<close>

lemma program_failure_calls:
  assumes "program pf ok fwd (r, hw) = (Some BcmError, r', hw')"
  shows "\<exists>cs. calls hw' = calls hw @ cs \<and> releasedLater cs"
  using assms
  by (cases fwd)
     (auto simp: program_defs split: if_splits option.splits prod.splits sum.splits)

lemma program_failure_host_balance:
  assumes "program pf ok fwd (r, hw) = (Some BcmError, r', hw')"
  shows "\<exists>cs. calls hw' = calls hw @ cs \<and>
     (\<forall>h. int (count_list cs (DerefBcmHost h)) - int (count_list cs (IncRefOrCreateBcmHost h)) =
           (if canUseHostTable pf r \<and> m_added r \<and> h = (m_vrf r, m_prefix r) then 1 else 0))"
  using assms
  by (cases fwd)
     (auto simp: program_defs split: if_splits option.splits prod.splits sum.splits)

section \<open>The route table\<close>

lemma Key_less_irrefl [simp]: "\<not> Key_less k k"
  by (simp add: Key_less_def)

lemma Key_equiv_iff: "(\<not> Key_less a b \<and> \<not> Key_less b a) \<longleftrightarrow> a = b"
proof
  assume h: "\<not> Key_less a b \<and> \<not> Key_less b a"
  then have "vrf a = vrf b" "mask a = mask b" "addrKey (network a) = addrKey (network b)"
    by (auto simp: Key_less_def split: if_splits)
  then show "a = b" by (auto dest: addrKey_inj)
next
  assume "a = b"
  then show "\<not> Key_less a b \<and> \<not> Key_less b a" by simp
qed

lemma fibFind_emplace:
  "fibFind k fib = None \<Longrightarrow> fibFind k (fibEmplace k new fib) = Some new"
  by (induction fib) (auto split: if_splits)

lemma count_emplace:
  "fibFind k fib = None \<Longrightarrow>
   routesPointingAt q (fibEmplace k new fib) = routesPointingAt q fib + of_bool (pointsAt q new)"
  by (induction fib) (auto simp: routesPointingAt_def split: if_splits)

lemma count_store:
  "fibFind k fib = Some r \<Longrightarrow>
   int (routesPointingAt q (fibStore k r' fib)) =
     int (routesPointingAt q fib) - of_bool (pointsAt q r) + of_bool (pointsAt q r')"
  by (induction fib) (auto simp: routesPointingAt_def split: if_splits)

lemma count_erase:
  "fibFind k fib = Some r \<Longrightarrow>
   int (routesPointingAt q (fibErase k fib)) = int (routesPointingAt q fib) - of_bool (pointsAt q r)"
  by (induction fib) (auto simp: routesPointingAt_def split: if_splits)

lemma fibFind_store:
  "fibFind k fib = Some r \<Longrightarrow> fibFind k (fibStore k r' fib) = Some r'"
  by (induction fib) (auto split: if_splits)

lemma fibFind_mem: "fibFind k fib = Some r \<Longrightarrow> list_all (\<lambda>e. P (snd e)) fib \<Longrightarrow> P r"
  by (induction fib) (auto split: if_splits)

lemma all_emplace:
  "list_all (\<lambda>e. P (snd e)) fib \<Longrightarrow> P new \<Longrightarrow> list_all (\<lambda>e. P (snd e)) (fibEmplace k new fib)"
  by (induction fib) (auto split: if_splits)

lemma all_store:
  "list_all (\<lambda>e. P (snd e)) fib \<Longrightarrow> P r' \<Longrightarrow> list_all (\<lambda>e. P (snd e)) (fibStore k r' fib)"
  by (induction fib) (auto split: if_splits)

lemma all_erase:
  "list_all (\<lambda>e. P (snd e)) fib \<Longrightarrow> list_all (\<lambda>e. P (snd e)) (fibErase k fib)"
  by (induction fib) (auto split: if_splits)

lemma fibFind_erase:
  "sorted_wrt Key_less (map fst fib) \<Longrightarrow> fibFind k (fibErase k fib) = None"
proof (induction fib)
  case Nil
  then show ?case by simp
next
  case (Cons a fib)
  obtain k' r where a: "a = (k', r)" by (cases a)
  show ?case
  proof (cases "\<not> Key_less k k' \<and> \<not> Key_less k' k")
    case True
    then have eq: "k = k'" by (simp add: Key_equiv_iff)
    have "\<forall>x \<in> set fib. Key_less k (fst x)" using Cons.prems a eq by auto
    then have "fibFind k fib = None" by (induction fib) auto
    then show ?thesis using a True by simp
  next
    case False
    then show ?thesis using Cons a by auto
  qed
qed

lemma fibFind_erase_other:
  "k' \<noteq> k \<Longrightarrow> fibFind k' (fibErase k fib) = fibFind k' fib"
  by (induction fib) (auto simp: Key_equiv_iff)

lemma destroy_effect:
  assumes "destroyBcmRoute pf r hw = (None, hw')" "wfRoute r"
  shows "ecmpRefBalance (calls hw') q = ecmpRefBalance (calls hw) q - of_bool (pointsAt q r)"
  using assms nhops_nonempty_action [of "m_fwd r"]
  by (cases q)
     (auto simp: destroyBcmRoute_def Let_def ecmpRefBalance_def pointsAt_def wfRoute_def
       derefBcmHost_def derefBcmEcmpHost_def deleteLpmRoute_def opennsl_l3_route_delete_def
       split: if_splits option.splits)

lemma newBcmRoute_props [simp]:
  "wfRoute (newBcmRoute v a l)" "\<not> pointsAt q (newBcmRoute v a l)"
  by (simp_all add: wfRoute_def pointsAt_def newBcmRoute_def)

lemma addRoute_success:
  assumes "addRoute pf ok v route (fib, hw) = (None, fib', hw')"
  obtains r fib1 fwd r' where
    "fibFind (keyOf v route) fib1 = Some r"
    "fibFind (keyOf v route) fib = Some r \<and> fib1 = fib \<or>
     fibFind (keyOf v route) fib = None \<and>
       r = newBcmRoute v (prefix_network route) (prefix_mask route) \<and>
       fib1 = fibEmplace (keyOf v route) r fib"
    "program pf ok fwd (r, hw) = (None, r', hw')"
    "fib' = fibStore (keyOf v route) r' fib1"
    "getAction (getForwardInfo route) \<noteq> NEXTHOPS \<and> fwd = getForwardInfo route \<or>
     getAction (getForwardInfo route) = NEXTHOPS \<and>
       (\<exists>nhops. normalizeNextHops (ecmp_width pf) (getNextHopSet (getForwardInfo route)) = Some nhops \<and>
          fwd = NextHopsEntry nhops (getAdminDistance (getForwardInfo route)))"
proof (cases "fibFind (keyOf v route) fib")
  case None
  define r where "r = newBcmRoute v (prefix_network route) (prefix_mask route)"
  define fib1 where "fib1 = fibEmplace (keyOf v route) r fib"
  have f: "fibFind (keyOf v route) fib1 = Some r"
    unfolding fib1_def by (rule fibFind_emplace [OF None])
  show ?thesis
    using assms None f that [of fib1 r]
    by (auto simp: addRoute_def Let_def r_def fib1_def split: if_splits option.splits prod.splits)
next
  case (Some r)
  show ?thesis
    using assms Some that [of fib r]
    by (auto simp: addRoute_def Let_def split: if_splits option.splits prod.splits)
qed

lemma addRoute_preserves:
  assumes "addRoute pf ok v route (fib, hw) = (None, fib', hw')"
    "list_all (\<lambda>e. wfRoute (snd e)) fib"
    "\<forall>q. ecmpRefBalance (calls hw) q = int (routesPointingAt q fib)"
  shows "list_all (\<lambda>e. wfRoute (snd e)) fib' \<and>
         (\<forall>q. ecmpRefBalance (calls hw') q = int (routesPointingAt q fib'))"
proof -
  obtain r fib1 fwd r' where a:
    "fibFind (keyOf v route) fib1 = Some r"
    "fibFind (keyOf v route) fib = Some r \<and> fib1 = fib \<or>
     fibFind (keyOf v route) fib = None \<and>
       r = newBcmRoute v (prefix_network route) (prefix_mask route) \<and>
       fib1 = fibEmplace (keyOf v route) r fib"
    "program pf ok fwd (r, hw) = (None, r', hw')"
    "fib' = fibStore (keyOf v route) r' fib1"
    using addRoute_success [OF assms(1)] by metis
  have w1: "list_all (\<lambda>e. wfRoute (snd e)) fib1"
    using a(2) assms(2) all_emplace [of wfRoute fib] by auto
  have c1: "routesPointingAt q fib1 = routesPointingAt q fib" for q
    using a(2) count_emplace [of "keyOf v route" fib q] by auto
  have wr: "wfRoute r" by (rule fibFind_mem [OF a(1) w1])
  obtain cs where cs: "calls hw' = calls hw @ cs" "wfRoute r'"
    "\<forall>k. ecmpRefBalance cs k = of_bool (pointsAt k r') - of_bool (pointsAt k r)"
    using program_effect [OF a(3)] wr by auto
  have w2: "list_all (\<lambda>e. wfRoute (snd e)) fib'"
    unfolding a(4) by (rule all_store [OF w1 cs(2)])
  have "ecmpRefBalance (calls hw') q = int (routesPointingAt q fib')" for q
    using spec [OF assms(3), of q] spec [OF cs(3), of q] cs(1) c1 [of q]
      count_store [OF a(1), of q r']
    by (simp add: a(4) ecmpRefBalance_append)
  then show ?thesis using w2 by simp
qed

lemma deleteRoute_preserves:
  assumes "deleteRoute pf v route (fib, hw) = (None, fib', hw')"
    "list_all (\<lambda>e. wfRoute (snd e)) fib"
    "\<forall>q. ecmpRefBalance (calls hw) q = int (routesPointingAt q fib)"
  shows "list_all (\<lambda>e. wfRoute (snd e)) fib' \<and>
         (\<forall>q. ecmpRefBalance (calls hw') q = int (routesPointingAt q fib'))"
proof -
  obtain r where r: "fibFind (keyOf v route) fib = Some r"
    "destroyBcmRoute pf r hw = (None, hw')" "fib' = fibErase (keyOf v route) fib"
    using assms(1)
    by (auto simp: deleteRoute_def Let_def split: option.splits prod.splits)
  have wr: "wfRoute r" by (rule fibFind_mem [OF r(1) assms(2)])
  have w2: "list_all (\<lambda>e. wfRoute (snd e)) fib'"
    unfolding r(3) by (rule all_erase [OF assms(2)])
  have "ecmpRefBalance (calls hw') q = int (routesPointingAt q fib')" for q
    using spec [OF assms(3), of q] destroy_effect [OF r(2) wr, of q] count_erase [OF r(1), of q]
    by (simp add: r(3))
  then show ?thesis using w2 by simp
qed

lemma runOps_preserves:
  assumes "runOps pf ops st = Some st'"
    "list_all (\<lambda>e. wfRoute (snd e)) (fst st)"
    "\<forall>q. ecmpRefBalance (calls (snd st)) q = int (routesPointingAt q (fst st))"
  shows "list_all (\<lambda>e. wfRoute (snd e)) (fst st') \<and>
         (\<forall>q. ecmpRefBalance (calls (snd st')) q = int (routesPointingAt q (fst st')))"
  using assms
proof (induction ops arbitrary: st)
  case Nil
  then show ?case by simp
next
  case (Cons op ops)
  obtain fib hw where st: "st = (fib, hw)" by (cases st)
  obtain fib1 hw1 where s: "applyOp pf op (fib, hw) = (None, fib1, hw1)"
    "runOps pf ops (fib1, hw1) = Some st'"
    using Cons.prems(1) st by (auto split: prod.splits option.splits)
  have "list_all (\<lambda>e. wfRoute (snd e)) fib1 \<and>
        (\<forall>q. ecmpRefBalance (calls hw1) q = int (routesPointingAt q fib1))"
  proof (cases op)
    case (AddRouteOp ok v route)
    then show ?thesis
      using addRoute_preserves [of pf ok v route fib hw fib1 hw1] s(1) Cons.prems(2,3) st by simp
  next
    case (DeleteRouteOp v route)
    then show ?thesis
      using deleteRoute_preserves [of pf v route fib hw fib1 hw1] s(1) Cons.prems(2,3) st by simp
  qed
  then show ?case
    using Cons.IH [OF s(2)] by simp
qed

lemmas table_defs =
  addRoute_def deleteRoute_def destroyBcmRoute_def keyOf_def newBcmRoute_def Key_less_def

lemma validSet_AB: "validSet [nextHopA, nextHopB]"
  by (simp add: validSet_def nextHopA_def nextHopB_def nhKey_def)

lemma total_AB: "totalWeightOf (map coerced [nextHopA, nextHopB]) = 2"
  by (simp add: nextHopA_def nextHopB_def coerced_def totalWeightOf_def)

lemma normalize_AB: "normalizeNextHops 64 [nextHopA, nextHopB] = Some [nextHopA, nextHopB]"
  by (rule normalizeNextHops_fixed [OF validSet_AB])
     (simp_all add: nextHopA_def nextHopB_def totalWeightOf_def INT_MAX_def)

lemma scaledWeight_narrow:
  "scaledWeight (scaleFactor (Suc 0) 2) (Suc 0) = Suc 0"
  by code_simp

lemma decrement_narrow_AB: "decrementMax (Suc 0) [nextHopA, nextHopB] = Some [nextHopB]"
  by code_simp

lemma normalize_narrow_AB_Suc: "normalizeNextHops (Suc 0) [nextHopA, nextHopB] = Some [nextHopB]"
proof -
  have b: "totalWeightOf (map coerced [nextHopA, nextHopB]) \<le> INT_MAX"
    using total_AB by (simp add: INT_MAX_def)
  have c: "map coerced [nextHopA, nextHopB] = [nextHopA, nextHopB]"
    by (simp add: nextHopA_def nextHopB_def coerced_def)
  have s: "scaled (scaleFactor (Suc 0) 2) nextHopA = nextHopA"
    "scaled (scaleFactor (Suc 0) 2) nextHopB = nextHopB"
    by (simp_all add: nextHopA_def nextHopB_def scaled_def scaledWeight_narrow)
  have t: "totalWeightOf [nextHopA, nextHopB] = 2"
    by (simp add: nextHopA_def nextHopB_def totalWeightOf_def)
  have "normalizeNextHops (Suc 0) [nextHopA, nextHopB] = decrementMax (Suc 0) [nextHopA, nextHopB]"
    unfolding normalizeNextHops_unfold [OF validSet_AB b] c
    by (simp add: Let_def t s del: decrementMax.simps)
  then show ?thesis by (simp only: decrement_narrow_AB)
qed

lemma normalize_narrow_AB: "normalizeNextHops 1 [nextHopA, nextHopB] = Some [nextHopB]"
  using normalize_narrow_AB_Suc by simp

lemma validSet_fortyNines: "validSet fortyNines"
  by (simp add: validSet_def fortyNines_def nhKey_def)

lemma scaledWeight_fortyNines: "scaledWeight (scaleFactor 64 98) 49 = 31"
  by code_simp

lemma normalize_fortyNines:
  "normalizeNextHops 64 fortyNines =
     Some [ResolvedNextHop (IPAddressV4 1) 1 31, ResolvedNextHop (IPAddressV4 2) 1 31]"
proof -
  have b: "totalWeightOf (map coerced fortyNines) \<le> INT_MAX"
    by (simp add: fortyNines_def coerced_def totalWeightOf_def INT_MAX_def)
  show ?thesis
    unfolding normalizeNextHops_unfold [OF validSet_fortyNines b]
    by (simp add: Let_def fortyNines_def coerced_def totalWeightOf_def scaled_def
        scaledWeight_fortyNines)
qed

lemma normalize_A: "normalizeNextHops 64 [nextHopA] = Some [nextHopA]"
  by (rule normalizeNextHops_fixed)
     (simp_all add: validSet_def nextHopA_def totalWeightOf_def INT_MAX_def)

lemmas hostRoute_defs = afterFailedUpdate_def afterAddDrop_def hostRouteDrop_def hostRouteNextHop_def

section \<open>Claims about program\<close>

text \<open>
  Claim C1 (rollback on failure). Whenever a hardware write fails in \<open>program\<close>, so
  that the call ends in a \<open>BcmError\<close>, the route is as it was before the call
  (forwarding decision, egress handle and added flag included), and every reference that
  the call acquired, on a multipath object or on a host object, is released later in the
  call: after each acquiring call the rest of the record of calls holds more releases of
  the object than acquisitions. For the multipath objects acquisitions and releases are
  equal in number. For the host objects they are equal too, except for the host object of
  a route that was programmed through the host table before the call: its reference from
  before the call is released first, so it has one release more.
\<close>

theorem program_rollback_on_failure:
  assumes "program pf ok fwd (r, hw) = (Some BcmError, r', hw')"
  shows "r' = r \<and> m_fwd r' = m_fwd r \<and> m_egressId r' = m_egressId r \<and> m_added r' = m_added r \<and>
         (\<exists>cs. calls hw' = calls hw @ cs \<and> releasedLater cs \<and>
            (\<forall>k. count_list cs (IncRefOrCreateBcmEcmpHost k) = count_list cs (DerefBcmEcmpHost k)) \<and>
            (\<forall>h. int (count_list cs (DerefBcmHost h)) - int (count_list cs (IncRefOrCreateBcmHost h)) =
               (if canUseHostTable pf r \<and> m_added r \<and> h = (m_vrf r, m_prefix r) then 1 else 0)))"
proof -
  obtain cs where cs: "calls hw' = calls hw @ cs" "r' = r" "\<forall>k. ecmpRefBalance cs k = 0"
    using program_effect [OF assms] by auto
  obtain ds where ds: "calls hw' = calls hw @ ds" "releasedLater ds"
    using program_failure_calls [OF assms] by blast
  obtain es where es: "calls hw' = calls hw @ es"
    "\<forall>h. int (count_list es (DerefBcmHost h)) - int (count_list es (IncRefOrCreateBcmHost h)) =
           (if canUseHostTable pf r \<and> m_added r \<and> h = (m_vrf r, m_prefix r) then 1 else 0)"
    using program_failure_host_balance [OF assms] by blast
  have eq: "ds = cs" "es = cs" using cs(1) ds(1) es(1) by simp_all
  have "count_list cs (IncRefOrCreateBcmEcmpHost k) = count_list cs (DerefBcmEcmpHost k)" for k
    using spec [OF cs(3), of k] by (simp add: ecmpRefBalance_def)
  then show ?thesis using cs(1,2) ds(2) es(2) eq by blast
qed

theorem program_rollback_on_failure_witness:
  "program examplePlatform False (NextHopsEntry [nextHopA] 0)
          (programmedHostRouteEntry, switchWithHost) =
     (Some BcmError, programmedHostRouteEntry,
      snd (snd (program examplePlatform False (NextHopsEntry [nextHopA] 0)
          (programmedHostRouteEntry, switchWithHost)))) \<and>
   calls (snd (snd (program examplePlatform False (NextHopsEntry [nextHopA] 0)
          (programmedHostRouteEntry, switchWithHost)))) =
     calls switchWithHost @
     [IncRefOrCreateBcmEcmpHost (0, [nextHopA]), DerefBcmHost (0, IPAddressV4 10),
      IncRefOrCreateBcmHost (0, IPAddressV4 10),
      AddToBcmHostTable (0, IPAddressV4 10) False False,
      DerefBcmHost (0, IPAddressV4 10), DerefBcmEcmpHost (0, [nextHopA])] \<and>
   releasedLater
     [IncRefOrCreateBcmEcmpHost (0, [nextHopA]), DerefBcmHost (0, IPAddressV4 10),
      IncRefOrCreateBcmHost (0, IPAddressV4 10),
      AddToBcmHostTable (0, IPAddressV4 10) False False,
      DerefBcmHost (0, IPAddressV4 10), DerefBcmEcmpHost (0, [nextHopA])]"
proof -
  let ?res = "program examplePlatform False (NextHopsEntry [nextHopA] 0)
          (programmedHostRouteEntry, switchWithHost)"
  let ?cs = "[IncRefOrCreateBcmEcmpHost (0, [nextHopA]), DerefBcmHost (0, IPAddressV4 10),
      IncRefOrCreateBcmHost (0, IPAddressV4 10),
      AddToBcmHostTable (0, IPAddressV4 10) False False,
      DerefBcmHost (0, IPAddressV4 10), DerefBcmEcmpHost (0, [nextHopA])]"
  have e: "fst ?res = Some BcmError"
    by (simp add: program_defs example_defs)
  have c: "calls (snd (snd ?res)) = calls switchWithHost @ ?cs"
    by (simp add: program_defs example_defs)
  from e have p: "?res = (Some BcmError, fst (snd ?res), snd (snd ?res))"
    by (metis prod.collapse)
  from program_rollback_on_failure [OF p] obtain cs where
    r: "fst (snd ?res) = programmedHostRouteEntry"
    and cs: "calls (snd (snd ?res)) = calls switchWithHost @ cs" "releasedLater cs"
    by blast
  have "cs = ?cs" using c cs(1) by simp
  then show ?thesis using p r c cs(2) by simp
qed

text \<open>
  Claim C6 (no-op skip). When a route is programmed already and \<open>program\<close> is called with
  the forwarding decision that the route has, the call returns at once: no call is issued
  on the host table, the hardware or the warm boot cache, and the route and the switch are
  unchanged.
\<close>

theorem program_noop_skip:
  assumes "m_added r" "fwd = m_fwd r"
  shows "program pf ok fwd (r, hw) = (None, r, hw)"
  using assms by (simp add: program_def)

theorem program_noop_skip_witness:
  "m_added programmedHostRouteEntry \<and> DropEntry 0 = m_fwd programmedHostRouteEntry \<and>
   program examplePlatform True (DropEntry 0) (programmedHostRouteEntry, switchWithHost) =
     (None, programmedHostRouteEntry, switchWithHost)"
proof -
  have a: "m_added programmedHostRouteEntry" by (simp add: programmedHostRouteEntry_def)
  have f: "DropEntry 0 = m_fwd programmedHostRouteEntry" by (simp add: programmedHostRouteEntry_def)
  show ?thesis
    using program_noop_skip [OF a f, of examplePlatform True switchWithHost] a f by simp
qed

text \<open>
  Claim C8 (host shortcut over a route-table entry of the snapshot). For a route of
  full prefix length on a platform with host-table shortcuts, when the warm boot cache
  holds a route-table entry for the (vrf, prefix) and \<open>program\<close> runs to its end
  (it is not the no-op call and the write succeeds), the host entry is written with the
  replace flag and is in the host table with the egress of the route, the LPM entry of
  the prefix is gone, and the entry of the cache is marked programmed.
\<close>

theorem program_host_shortcut_replaces_lpm:
  assumes "isHostRoute r" "canUseHostTableForHostRoutes pf"
    "vrfAndIP2Route hw (m_vrf r, m_prefix r) = Some existing"
    "\<not> (m_added r \<and> fwd = m_fwd r)"
    "program pf ok fwd (r, hw) = (None, r', hw')"
  shows "AddToBcmHostTable (m_vrf r, m_prefix r) (length (getNextHopSet fwd) > 1) True
           \<in> set (drop (length (calls hw)) (calls hw')) \<and>
         (\<exists>h. hostTable hw' (m_vrf r, m_prefix r) = Some h \<and> addedInHW h \<and>
              hostEgressId h = m_egressId r') \<and>
         lpmTable hw' (m_vrf r, m_prefix r, m_len r) = None \<and>
         ProgrammedHostRoute (m_vrf r, m_prefix r) \<in> set (drop (length (calls hw)) (calls hw')) \<and>
         vrfAndIP2Route hw' (m_vrf r, m_prefix r) = None \<and>
         m_added r' \<and> m_fwd r' = fwd"
  using assms
  by (cases fwd)
     (auto simp: program_defs split: if_splits option.splits prod.splits bool.splits)

theorem program_host_shortcut_replaces_lpm_witness:
  "isHostRoute (newBcmRoute 0 (IPAddressV4 10) 32) \<and>
   canUseHostTableForHostRoutes examplePlatform \<and>
   vrfAndIP2Route warmBootSwitch (0, IPAddressV4 10) \<noteq> None \<and>
   lpmTable warmBootSwitch (0, IPAddressV4 10, 32) \<noteq> None \<and>
   fst (program examplePlatform True (NextHopsEntry [nextHopA] 10)
          (newBcmRoute 0 (IPAddressV4 10) 32, warmBootSwitch)) = None \<and>
   lpmTable (snd (snd (program examplePlatform True (NextHopsEntry [nextHopA] 10)
          (newBcmRoute 0 (IPAddressV4 10) 32, warmBootSwitch)))) (0, IPAddressV4 10, 32) = None \<and>
   vrfAndIP2Route (snd (snd (program examplePlatform True (NextHopsEntry [nextHopA] 10)
          (newBcmRoute 0 (IPAddressV4 10) 32, warmBootSwitch)))) (0, IPAddressV4 10) = None"
proof -
  let ?r = "newBcmRoute 0 (IPAddressV4 10) 32"
  let ?res = "program examplePlatform True (NextHopsEntry [nextHopA] 10) (?r, warmBootSwitch)"
  have h: "isHostRoute ?r" by (simp add: isHostRoute_def newBcmRoute_def)
  have c: "canUseHostTableForHostRoutes examplePlatform" by (simp add: examplePlatform_def)
  have w: "vrfAndIP2Route warmBootSwitch (m_vrf ?r, m_prefix ?r) =
      Some ((initL3RouteFromArgs 0 (IPAddressV4 10) 32)\<lparr>l3a_intf := 200\<rparr>)"
    by (simp add: warmBootSwitch_def emptySwitch_def newBcmRoute_def)
  have l: "lpmTable warmBootSwitch (0, IPAddressV4 10, 32) \<noteq> None"
    by (simp add: warmBootSwitch_def emptySwitch_def)
  have n: "\<not> (m_added ?r \<and> NextHopsEntry [nextHopA] 10 = m_fwd ?r)"
    by (simp add: newBcmRoute_def)
  have e: "fst ?res = None"
    by (simp add: program_defs example_defs warmBootSwitch_def newBcmRoute_def)
  then have p: "?res = (None, fst (snd ?res), snd (snd ?res))"
    by (metis prod.collapse)
  have f: "m_vrf ?r = 0" "m_prefix ?r = IPAddressV4 10" "m_len ?r = 32"
    by (simp_all add: newBcmRoute_def)
  show ?thesis
    using program_host_shortcut_replaces_lpm [OF h c w n p] h c w l e
    unfolding f by simp
qed

section \<open>Claims about the route table\<close>

text \<open>
  Claim C5 (refcount conservation). After any sequence of successful \<open>addRoute\<close> and
  \<open>deleteRoute\<close> calls on an empty table, for every (vrf, next-hop set) the number of
  \<open>incRefOrCreateBcmEcmpHost\<close> calls minus the number of \<open>derefBcmEcmpHost\<close> calls
  issued on the host table is the number of routes of the table that point at that
  next-hop set.
\<close>

theorem refcount_conservation:
  assumes "runOps pf ops ([], hw0) = Some (fib, hw)" "calls hw0 = []"
  shows "ecmpRefBalance (calls hw) k = int (routesPointingAt k fib)"
proof -
  have b0: "\<forall>q. ecmpRefBalance (calls (snd ([], hw0))) q = int (routesPointingAt q (fst ([], hw0)))"
    using assms(2) by (simp add: ecmpRefBalance_def routesPointingAt_def)
  have w0: "list_all (\<lambda>e. wfRoute (snd e)) (fst (([], hw0) :: Fib \<times> BcmSwitch))"
    by simp
  have "\<forall>q. ecmpRefBalance (calls (snd (fib, hw))) q = int (routesPointingAt q (fst (fib, hw)))"
    using runOps_preserves [OF assms(1) w0 b0] by (rule conjunct2)
  then have "ecmpRefBalance (calls (snd (fib, hw))) k = int (routesPointingAt k (fst (fib, hw)))"
    by (rule spec)
  then show ?thesis by simp
qed

lemma exampleOps_run:
  "\<exists>fib hw. runOps examplePlatform exampleOps ([], emptySwitch) = Some (fib, hw) \<and>
      routesPointingAt (0, [nextHopA, nextHopB]) fib = 1"
  by (simp add: exampleOps_def exampleRoute1_def exampleRoute2_def table_defs program_defs
      examplePlatform_def emptySwitch_def normalize_AB routesPointingAt_def pointsAt_def)

theorem refcount_conservation_witness:
  "\<exists>fib hw. runOps examplePlatform exampleOps ([], emptySwitch) = Some (fib, hw) \<and>
      calls emptySwitch = [] \<and>
      ecmpRefBalance (calls hw) (0, [nextHopA, nextHopB]) = 1 \<and>
      routesPointingAt (0, [nextHopA, nextHopB]) fib = 1"
proof -
  obtain fib hw where r: "runOps examplePlatform exampleOps ([], emptySwitch) = Some (fib, hw)"
    "routesPointingAt (0, [nextHopA, nextHopB]) fib = 1"
    using exampleOps_run by blast
  have c: "calls emptySwitch = []" by (simp add: emptySwitch_def)
  show ?thesis
    using refcount_conservation [OF r(1) c, of "(0, [nextHopA, nextHopB])"] r c by simp
qed

text \<open>
  \<open>deleteRoute\<close> by cases. On a key that is not in the table it fails with an
  \<open>FbossError\<close> and leaves table and switch unchanged. On a key that is in the table
  it erases the entry and runs the destructor of the route: a route that was never
  programmed has nothing to release; a programmed route deletes its hardware entry (the
  LPM entry, or its reference on the host object) and then releases its reference on the
  multipath object of its next hops; a programmed host route whose host object is not in
  the host table fails the \<open>CHECK(host)\<close> of the destructor.
\<close>

lemma deleteRoute_cases:
  "(fibFind (keyOf v route) fib = None \<longrightarrow>
      deleteRoute pf v route (fib, hw) = (Some FbossError, fib, hw)) \<and>
   (\<forall>r. fibFind (keyOf v route) fib = Some r \<longrightarrow>
      (\<exists>e hw'. deleteRoute pf v route (fib, hw) = (e, fibErase (keyOf v route) fib, hw') \<and>
         (sorted_wrt Key_less (map fst fib) \<longrightarrow>
            fibFind (keyOf v route) (fibErase (keyOf v route) fib) = None) \<and>
         (\<not> m_added r \<longrightarrow> e = None \<and> hw' = hw) \<and>
         (m_added r \<and> \<not> canUseHostTable pf r \<longrightarrow>
            e = None \<and> lpmTable hw' (m_vrf r, m_prefix r, m_len r) = None \<and>
            calls hw' = calls hw @ L3RouteDelete (initL3RouteT r) # releaseCalls r) \<and>
         (m_added r \<and> canUseHostTable pf r \<and> hostTable hw (m_vrf r, m_prefix r) \<noteq> None \<longrightarrow>
            e = None \<and>
            calls hw' = calls hw @ DerefBcmHost (m_vrf r, m_prefix r) # releaseCalls r) \<and>
         (m_added r \<and> canUseHostTable pf r \<and> hostTable hw (m_vrf r, m_prefix r) = None \<longrightarrow>
            e = Some CheckFailure \<and> hw' = hw)))"
proof (intro conjI allI impI)
  assume "fibFind (keyOf v route) fib = None"
  then show "deleteRoute pf v route (fib, hw) = (Some FbossError, fib, hw)"
    by (simp add: deleteRoute_def)
next
  fix r
  assume f: "fibFind (keyOf v route) fib = Some r"
  obtain e hw' where d: "destroyBcmRoute pf r hw = (e, hw')"
    by (cases "destroyBcmRoute pf r hw")
  have 1: "deleteRoute pf v route (fib, hw) = (e, fibErase (keyOf v route) fib, hw')"
    using f d by (simp add: deleteRoute_def)
  have 2: "sorted_wrt Key_less (map fst fib) \<longrightarrow>
            fibFind (keyOf v route) (fibErase (keyOf v route) fib) = None"
    by (simp add: fibFind_erase)
  have 3: "\<not> m_added r \<longrightarrow> e = None \<and> hw' = hw"
    using d by (auto simp: destroyBcmRoute_def)
  have 4: "m_added r \<and> \<not> canUseHostTable pf r \<longrightarrow>
            e = None \<and> lpmTable hw' (m_vrf r, m_prefix r, m_len r) = None \<and>
            calls hw' = calls hw @ L3RouteDelete (initL3RouteT r) # releaseCalls r"
    using d
    by (auto simp: destroyBcmRoute_def Let_def releaseCalls_def deleteLpmRoute_def
        opennsl_l3_route_delete_def derefBcmEcmpHost_def initL3RouteT_def lpmKeyOf_def
        initL3RouteFromArgs_def logCall_def split: option.splits)
  have 5: "m_added r \<and> canUseHostTable pf r \<and> hostTable hw (m_vrf r, m_prefix r) \<noteq> None \<longrightarrow>
            e = None \<and>
            calls hw' = calls hw @ DerefBcmHost (m_vrf r, m_prefix r) # releaseCalls r"
    using d
    by (auto simp: destroyBcmRoute_def Let_def releaseCalls_def derefBcmHost_def
        derefBcmEcmpHost_def logCall_def)
  have 6: "m_added r \<and> canUseHostTable pf r \<and> hostTable hw (m_vrf r, m_prefix r) = None \<longrightarrow>
            e = Some CheckFailure \<and> hw' = hw"
    using d by (auto simp: destroyBcmRoute_def)
  show "\<exists>e hw'. deleteRoute pf v route (fib, hw) = (e, fibErase (keyOf v route) fib, hw') \<and>
         (sorted_wrt Key_less (map fst fib) \<longrightarrow>
            fibFind (keyOf v route) (fibErase (keyOf v route) fib) = None) \<and>
         (\<not> m_added r \<longrightarrow> e = None \<and> hw' = hw) \<and>
         (m_added r \<and> \<not> canUseHostTable pf r \<longrightarrow>
            e = None \<and> lpmTable hw' (m_vrf r, m_prefix r, m_len r) = None \<and>
            calls hw' = calls hw @ L3RouteDelete (initL3RouteT r) # releaseCalls r) \<and>
         (m_added r \<and> canUseHostTable pf r \<and> hostTable hw (m_vrf r, m_prefix r) \<noteq> None \<longrightarrow>
            e = None \<and>
            calls hw' = calls hw @ DerefBcmHost (m_vrf r, m_prefix r) # releaseCalls r) \<and>
         (m_added r \<and> canUseHostTable pf r \<and> hostTable hw (m_vrf r, m_prefix r) = None \<longrightarrow>
            e = Some CheckFailure \<and> hw' = hw)"
    using 1 2 3 4 5 6 by blast
qed

text \<open>
  Claim C9 (removal: on a key that is not in the table \<open>deleteRoute\<close> fails with a
  not-found error and leaves the table unchanged; on a key that is in the table it erases
  the entry, whose destruction deletes its hardware entry and releases its egress
  reference) does not hold of the code for every key that is in the table. The host route
  10/32 is added as a drop route; an update of it with one next hop, whose hardware write
  fails, ends in a \<open>BcmError\<close>. The failed \<open>program\<close> has released the host object of
  the route before the write and leaves the route programmed, so the key is in the table
  with a programmed route and no host object. \<open>deleteRoute\<close> on this key ends in the
  failed \<open>CHECK(host)\<close> of the destructor; it issues no call: no hardware entry is
  deleted and no reference is released.
\<close>

theorem deleteRoute_aborts_after_failed_update:
  "fst (addRoute examplePlatform True 0 hostRouteDrop ([], emptySwitch)) = None \<and>
   fst (addRoute examplePlatform False 0 hostRouteNextHop afterAddDrop) = Some BcmError \<and>
   fibFind (keyOf 0 hostRouteNextHop) (fst afterFailedUpdate) =
     Some \<lparr>m_vrf = 0, m_prefix = IPAddressV4 10, m_len = 32, m_fwd = DropEntry 10,
            m_egressId = 100, m_added = True\<rparr> \<and>
   hostTable (snd afterFailedUpdate) (0, IPAddressV4 10) = None \<and>
   calls (snd afterFailedUpdate) =
     [IncRefOrCreateBcmHost (0, IPAddressV4 10),
      AddToBcmHostTable (0, IPAddressV4 10) False False,
      IncRefOrCreateBcmEcmpHost (0, [nextHopA]),
      DerefBcmHost (0, IPAddressV4 10),
      IncRefOrCreateBcmHost (0, IPAddressV4 10),
      AddToBcmHostTable (0, IPAddressV4 10) False False,
      DerefBcmHost (0, IPAddressV4 10),
      DerefBcmEcmpHost (0, [nextHopA])] \<and>
   fst (deleteRoute examplePlatform 0 hostRouteNextHop afterFailedUpdate) = Some CheckFailure \<and>
   calls (snd (snd (deleteRoute examplePlatform 0 hostRouteNextHop afterFailedUpdate))) =
     calls (snd afterFailedUpdate)"
proof -
  have 1: "fst (addRoute examplePlatform True 0 hostRouteDrop ([], emptySwitch)) = None"
    by (simp add: hostRoute_defs table_defs program_defs examplePlatform_def emptySwitch_def)
  have 2: "fst (addRoute examplePlatform False 0 hostRouteNextHop afterAddDrop) = Some BcmError"
    by (simp add: hostRoute_defs table_defs program_defs examplePlatform_def emptySwitch_def
        normalize_A)
  have 3: "fibFind (keyOf 0 hostRouteNextHop) (fst afterFailedUpdate) =
     Some \<lparr>m_vrf = 0, m_prefix = IPAddressV4 10, m_len = 32, m_fwd = DropEntry 10,
            m_egressId = 100, m_added = True\<rparr>"
    by (simp add: hostRoute_defs table_defs program_defs examplePlatform_def emptySwitch_def
        normalize_A)
  have 4: "hostTable (snd afterFailedUpdate) (0, IPAddressV4 10) = None"
    by (simp add: hostRoute_defs table_defs program_defs examplePlatform_def emptySwitch_def
        normalize_A)
  have 5: "calls (snd afterFailedUpdate) =
     [IncRefOrCreateBcmHost (0, IPAddressV4 10),
      AddToBcmHostTable (0, IPAddressV4 10) False False,
      IncRefOrCreateBcmEcmpHost (0, [nextHopA]),
      DerefBcmHost (0, IPAddressV4 10),
      IncRefOrCreateBcmHost (0, IPAddressV4 10),
      AddToBcmHostTable (0, IPAddressV4 10) False False,
      DerefBcmHost (0, IPAddressV4 10),
      DerefBcmEcmpHost (0, [nextHopA])]"
    by (simp add: hostRoute_defs table_defs program_defs examplePlatform_def emptySwitch_def
        normalize_A)
  have c: "canUseHostTable examplePlatform
      \<lparr>m_vrf = 0, m_prefix = IPAddressV4 10, m_len = 32, m_fwd = DropEntry 10,
       m_egressId = 100, m_added = True\<rparr>"
    by (simp add: canUseHostTable_def isHostRoute_def examplePlatform_def)
  have d: "deleteRoute examplePlatform 0 hostRouteNextHop afterFailedUpdate =
      (Some CheckFailure, fibErase (keyOf 0 hostRouteNextHop) (fst afterFailedUpdate),
       snd afterFailedUpdate)"
  proof -
    obtain fib hw where st: "afterFailedUpdate = (fib, hw)"
      by (cases afterFailedUpdate)
    show ?thesis
      using 3 4 c unfolding st by (simp add: deleteRoute_def destroyBcmRoute_def)
  qed
  show ?thesis using 1 2 3 4 5 d by simp
qed

text \<open>
  Claim C2, as stated, fails: with two next hops and width 1, \<open>addRoute\<close> reports no
  error and programs the route with one next hop; normalization has removed the other.
\<close>

theorem addRoute_truncates_counterexample:
  "ecmp_width narrowPlatform < length (getNextHopSet (getForwardInfo exampleRoute1)) \<and>
   normalizeNextHops (ecmp_width narrowPlatform) (getNextHopSet (getForwardInfo exampleRoute1)) =
     Some [nextHopB] \<and>
   fst (addRoute narrowPlatform True 0 exampleRoute1 ([], emptySwitch)) = None \<and>
   fibFind (keyOf 0 exampleRoute1)
     (fst (snd (addRoute narrowPlatform True 0 exampleRoute1 ([], emptySwitch)))) =
     Some \<lparr>m_vrf = 0, m_prefix = IPAddressV4 1000, m_len = 24,
            m_fwd = NextHopsEntry [nextHopB] 10, m_egressId = 200, m_added = True\<rparr>"
  by (simp add: exampleRoute1_def table_defs program_defs examplePlatform_def narrowPlatform_def
      emptySwitch_def normalize_narrow_AB_Suc)

text \<open>
  Claim C2, amended. When a next-hop set has more next hops than the width, and its
  weights (0 counted as 1) add up to at most \<open>INT_MAX\<close>, normalization removes the
  first \<open>|S| - W\<close> of them and gives each of the others weight 1. The add
  path reports no unsupported-configuration error: the errors it can end in are a failed
  hardware write and a failed check. When it ends without error the route is programmed
  with the truncated set, and it does so whenever the write succeeds, the width is at
  least 1 and the platform has no host-table shortcuts.
\<close>

theorem addRoute_programs_truncated_set:
  assumes "validSet S" "totalWeightOf (map coerced S) \<le> INT_MAX"
    "ecmp_width pf < length S" "isResolved route"
    "getForwardInfo route = NextHopsEntry S d"
    "addRoute pf ok v route (fib, hw) = (e, fib', hw')"
  shows "\<exists>R. normalizeNextHops (ecmp_width pf) S = Some R \<and> length R = ecmp_width pf \<and>
           (\<forall>nh \<in> set R. weight nh = 1) \<and>
           map nhIdentity R = drop (length S - ecmp_width pf) (map nhIdentity S) \<and>
           e \<in> {None, Some BcmError, Some CheckFailure} \<and>
           (e = None \<longrightarrow>
              (\<exists>r'. fibFind (keyOf v route) fib' = Some r' \<and> m_added r' \<and>
                    m_fwd r' = NextHopsEntry R d)) \<and>
           (ok \<and> 1 \<le> ecmp_width pf \<and> \<not> canUseHostTableForHostRoutes pf \<longrightarrow> e = None)"
proof -
  obtain R where R: "normalizeNextHops (ecmp_width pf) S = Some R"
    "\<forall>nh \<in> set R. weight nh = 1" "map nhKey R = drop (length S - ecmp_width pf) (map nhKey S)"
    using normalizeNextHops_summary [OF assms(1,2), of "ecmp_width pf"] assms(3) by blast
  have len: "length R = ecmp_width pf"
    using arg_cong [OF R(3), of length] assms(3) by simp
  have idn: "map nhIdentity R = drop (length S - ecmp_width pf) (map nhIdentity S)"
    using R(3) by (simp add: map_nhKey_eq_iff drop_map)
  define fwd where "fwd = NextHopsEntry R d"
  obtain r fib1 where rf: "fibFind (keyOf v route) fib1 = Some r"
    "(r, fib1) = (case fibFind (keyOf v route) fib of
                  Some existing \<Rightarrow> (existing, fib)
                | None \<Rightarrow>
                    (let created = newBcmRoute v (prefix_network route) (prefix_mask route)
                     in (created, fibEmplace (keyOf v route) created fib)))"
    by (cases "fibFind (keyOf v route) fib") (auto simp: fibFind_emplace Let_def)
  obtain e2 r2 hw2 where p: "program pf ok fwd (r, hw) = (e2, r2, hw2)"
    by (cases "program pf ok fwd (r, hw)")
  have res: "e = e2" "fib' = fibStore (keyOf v route) r2 fib1"
    using assms(4,5,6) R(1) rf(2) [symmetric] p
    by (simp_all add: addRoute_def Let_def fwd_def)
  have e2: "e2 \<in> {None, Some BcmError, Some CheckFailure}"
    using p
    by (auto simp: program_def resolveEgress_def Let_def programViaHostTable_def
        programHostRoute_def programLpmRoute_def addToBcmHostTable_def
        split: if_splits sum.splits prod.splits option.splits bool.splits)
  have ok: "fibFind (keyOf v route) fib' = Some r2 \<and> m_added r2 \<and> m_fwd r2 = NextHopsEntry R d"
    if "e = None"
    using that res p program_success_state [of pf ok fwd r hw r2 hw2] fibFind_store [OF rf(1)]
    by (simp add: fwd_def)
  have lpm: "e = None" if "ok" "1 \<le> ecmp_width pf" "\<not> canUseHostTableForHostRoutes pf"
  proof -
    have "R \<noteq> []" using len that(2) by auto
    then show ?thesis
      using p res(1) that(1,3)
      by (auto simp: program_def resolveEgress_def fwd_def canUseHostTable_def Let_def
          programLpmRoute_def opennsl_l3_route_add_def
          split: if_splits option.splits prod.splits)
  qed
  show ?thesis
    using R(1,2) len idn e2 res(1) ok lpm by (intro exI [of _ R]) blast
qed

theorem addRoute_programs_truncated_set_witness:
  "validSet [nextHopA, nextHopB] \<and> totalWeightOf (map coerced [nextHopA, nextHopB]) \<le> INT_MAX \<and>
   ecmp_width narrowPlatform < length [nextHopA, nextHopB] \<and>
   isResolved exampleRoute1 \<and>
   getForwardInfo exampleRoute1 = NextHopsEntry [nextHopA, nextHopB] 10 \<and>
   fst (addRoute narrowPlatform True 0 exampleRoute1 ([], emptySwitch)) = None \<and>
   (\<exists>R. normalizeNextHops (ecmp_width narrowPlatform) [nextHopA, nextHopB] = Some R \<and>
        length R = ecmp_width narrowPlatform \<and>
        map nhIdentity R = drop (length [nextHopA, nextHopB] - ecmp_width narrowPlatform)
                             (map nhIdentity [nextHopA, nextHopB]) \<and>
        (\<exists>r'. fibFind (keyOf 0 exampleRoute1)
                 (fst (snd (addRoute narrowPlatform True 0 exampleRoute1 ([], emptySwitch)))) =
                 Some r' \<and>
              m_added r' \<and> m_fwd r' = NextHopsEntry R 10))"
proof -
  let ?res = "addRoute narrowPlatform True 0 exampleRoute1 ([], emptySwitch)"
  have l: "ecmp_width narrowPlatform < length [nextHopA, nextHopB]"
    by (simp add: narrowPlatform_def examplePlatform_def)
  have b: "totalWeightOf (map coerced [nextHopA, nextHopB]) \<le> INT_MAX"
    using total_AB by (simp add: INT_MAX_def)
  have r: "isResolved exampleRoute1" by (simp add: exampleRoute1_def)
  have f: "getForwardInfo exampleRoute1 = NextHopsEntry [nextHopA, nextHopB] 10"
    by (simp add: exampleRoute1_def)
  have e: "fst ?res = None"
    by (simp add: exampleRoute1_def table_defs program_defs examplePlatform_def
        narrowPlatform_def emptySwitch_def normalize_narrow_AB_Suc)
  then have p: "?res = (None, fst (snd ?res), snd (snd ?res))" by (metis prod.collapse)
  show ?thesis
    using addRoute_programs_truncated_set [OF validSet_AB b l r f p] validSet_AB b l r f e
    by blast
qed

section \<open>The scaling pass\<close>

text \<open>
  Claim C7, as stated, fails: the scale factor and the products are doubles. For two next
  hops of weight 49 and width 64 the total is 98, the factor is the double nearest to
  64/98, and 49 times the factor rounds to a double just below 32: both next hops get
  weight 31, where \<open>max(1, floor(49 * 64 / 98))\<close> is 32.
\<close>

theorem scaling_formula_counterexample:
  "totalWeightOf (coerceNextHops fortyNines) = 98 \<and>
   scaledWeight (scaleFactor 64 98) 49 = 31 \<and>
   max 1 ((49 * 64) div 98) = (32 :: nat) \<and>
   normalizeNextHops 64 fortyNines =
     Some [ResolvedNextHop (IPAddressV4 1) 1 31, ResolvedNextHop (IPAddressV4 2) 1 31]"
proof -
  have "totalWeightOf (coerceNextHops fortyNines) = 98" by code_simp
  moreover have "scaledWeight (scaleFactor 64 98) 49 = 31" by (rule scaledWeight_fortyNines)
  moreover have "max 1 ((49 * 64) div 98) = (32 :: nat)" by simp
  ultimately show ?thesis using normalize_fortyNines by simp
qed

text \<open>
  Claim C7, amended. When the coerced weights add up to a total \<open>T\<close> that exceeds the
  width \<open>W\<close> and is at most \<open>INT_MAX\<close> (so that the \<open>int\<close> accumulator holds it), the
  scaling pass keeps every next hop and gives the next hop of (coerced) weight \<open>w\<close> the
  weight \<open>max(1, trunc(w * (W / T)))\<close>, where the quotient and the product are each
  rounded to double precision. This weight is \<open>max(1, floor(w * W / T))\<close> or one less
  (as long as \<open>T * W \<le> 2\<^sup>5\<^sup>1\<close>). When the scaled weights add up to at most \<open>W\<close>
  they are the result. For \<open>{(A,1,w=100),(B,1,w=1)}\<close> and width 64 this gives
  \<open>{A:63, B:1}\<close>, total 64, with no decrement correction.
\<close>

theorem scaling_pass_in_double_precision:
  assumes "validSet S" "T = totalWeightOf (coerceNextHops S)" "W < T" "T \<le> INT_MAX"
  shows "uint64_of_int (accumulateWeights (coerceNextHops S)) = T \<and>
         fst (scaleNextHops (scaleFactor W T) (coerceNextHops S)) =
           map (\<lambda>nh. ResolvedNextHop (addr nh) (intf nh)
                  (max (nat \<lfloor>to_double (to_double (of_nat (max (weight nh) 1)) *
                                    to_double (of_nat W / to_double (of_nat T)))\<rfloor>) 1)) S \<and>
         (T * W \<le> 2 ^ 51 \<longrightarrow>
            (\<forall>nh \<in> set S.
               scaledWeight (scaleFactor W T) (max (weight nh) 1)
                 \<le> max 1 (max (weight nh) 1 * W div T) \<and>
               max 1 (max (weight nh) 1 * W div T)
                 \<le> scaledWeight (scaleFactor W T) (max (weight nh) 1) + 1)) \<and>
         (totalWeightOf (fst (scaleNextHops (scaleFactor W T) (coerceNextHops S))) \<le> W \<longrightarrow>
            normalizeNextHops W S = Some (fst (scaleNextHops (scaleFactor W T) (coerceNextHops S))))"
proof -
  have vN: "validSet (map coerced S)"
    using assms(1) by (simp add: validSet_def comp_def)
  have c: "coerceNextHops S = map coerced S"
    by (rule coerceNextHops_map [OF assms(1)])
  have b: "totalWeightOf (map coerced S) \<le> INT_MAX"
    using assms(2,4) c by simp
  have 0: "uint64_of_int (accumulateWeights (coerceNextHops S)) = T"
    unfolding c using accumulateWeights_small [OF b] assms(2) c by simp
  have s: "fst (scaleNextHops (scaleFactor W T) (map coerced S)) =
      map (scaled (scaleFactor W T)) (map coerced S)"
    by (simp add: scaleNextHops_map [OF vN])
  have 1: "fst (scaleNextHops (scaleFactor W T) (coerceNextHops S)) =
           map (\<lambda>nh. ResolvedNextHop (addr nh) (intf nh)
                  (max (nat \<lfloor>to_double (to_double (of_nat (max (weight nh) 1)) *
                                    to_double (of_nat W / to_double (of_nat T)))\<rfloor>) 1)) S"
    unfolding c s by (simp add: scaled_def coerced_def scaledWeight_def scaleFactor_def)
  have 2: "normalizeNextHops W S = Some (fst (scaleNextHops (scaleFactor W T) (coerceNextHops S)))"
    if "totalWeightOf (fst (scaleNextHops (scaleFactor W T) (coerceNextHops S))) \<le> W"
    using that assms(2,3) unfolding c s
    by (simp add: normalizeNextHops_unfold [OF assms(1) b] Let_def)
  have 3: "scaledWeight (scaleFactor W T) (max (weight nh) 1)
             \<le> max 1 (max (weight nh) 1 * W div T) \<and>
           max 1 (max (weight nh) 1 * W div T)
             \<le> scaledWeight (scaleFactor W T) (max (weight nh) 1) + 1"
    if "T * W \<le> 2 ^ 51" "nh \<in> set S" for nh
  proof -
    have "coerced nh \<in> set (map coerced S)"
      using that(2) by simp
    then have "weight (coerced nh) \<le> totalWeightOf (map coerced S)"
      by (rule member_le_total)
    then have le: "max (weight nh) 1 \<le> T"
      by (simp add: assms(2) c coerced_def)
    have ge: "1 \<le> max (weight nh) 1" by simp
    show ?thesis by (rule scaledWeight_bounds [OF that(1) ge le])
  qed
  show ?thesis using 0 1 2 3 by blast
qed

theorem scaling_pass_in_double_precision_witness:
  "validSet scenario3 \<and> totalWeightOf (coerceNextHops scenario3) = 101 \<and> (64 :: nat) < 101 \<and>
   101 \<le> INT_MAX \<and> (101 :: nat) * 64 \<le> 2 ^ 51 \<and>
   uint64_of_int (accumulateWeights (coerceNextHops scenario3)) = 101 \<and>
   fst (scaleNextHops (scaleFactor 64 101) (coerceNextHops scenario3)) =
     [ResolvedNextHop (IPAddressV4 1) 1 63, ResolvedNextHop (IPAddressV4 2) 1 1] \<and>
   totalWeightOf [ResolvedNextHop (IPAddressV4 1) 1 63, ResolvedNextHop (IPAddressV4 2) 1 1] = 64 \<and>
   max 1 (100 * 64 div 101) = (63 :: nat) \<and> max 1 (1 * 64 div 101) = (1 :: nat) \<and>
   normalizeNextHops 64 scenario3 =
     Some [ResolvedNextHop (IPAddressV4 1) 1 63, ResolvedNextHop (IPAddressV4 2) 1 1]"
proof -
  have t: "101 = totalWeightOf (coerceNextHops scenario3)" by code_simp
  have l: "(64 :: nat) < 101" by simp
  have i: "101 \<le> INT_MAX" by (simp add: INT_MAX_def)
  have b: "(101 :: nat) * 64 \<le> 2 ^ 51" by simp
  have c: "coerceNextHops scenario3 = map coerced scenario3"
    by (rule coerceNextHops_map [OF validSet_scenario3])
  have v: "validSet (map coerced scenario3)"
    using validSet_scenario3 by (simp add: validSet_def comp_def)
  have f: "fst (scaleNextHops (scaleFactor 64 101) (coerceNextHops scenario3)) =
     [ResolvedNextHop (IPAddressV4 1) 1 63, ResolvedNextHop (IPAddressV4 2) 1 1]"
    unfolding c scaleNextHops_map [OF v]
    by (simp add: scenario3_def coerced_def scaled_def scaledWeight_scenario3)
  have w: "totalWeightOf [ResolvedNextHop (IPAddressV4 1) 1 63, ResolvedNextHop (IPAddressV4 2) 1 1] = 64"
    by (simp add: totalWeightOf_def)
  have m: "max 1 (100 * 64 div 101) = (63 :: nat)" "max 1 (1 * 64 div 101) = (1 :: nat)"
    by simp_all
  show ?thesis
    using scaling_pass_in_double_precision [OF validSet_scenario3 t l i] validSet_scenario3
      t i b f w m
    by simp
qed

end
